theory Spec2Isabelle
  imports Main "HOL-Library.Word" "HOL-Library.Multiset"
begin

section \<open>Data model\<close>

text \<open>
  The engine of \<^verbatim>\<open>regular_graphic.c\<close> certifies a growing sequence of minors of a
  matrix as graphic. Two kinds of failure are kept apart from the graphic / non-graphic
  verdict: a violated \<^verbatim>\<open>assert\<close>, and a read of a slot that holds no value (an edge
  map entry never written, an edge identifier that names no edge, a node that does not
  exist). The recursive traversals carry a recursion budget, which the callers set from
  the number of nodes of the graph; \<open>FuelExhausted\<close> is the value of a traversal whose
  budget ran out. It is an error value like the two others: a theorem below that speaks of
  a verdict or of a result speaks of the runs that end in neither of the three.
\<close>

datatype error = AssertionViolated | InvalidAccess | FuelExhausted

text \<open>
  Modelled from the spec: the element identifier (\<^verbatim>\<open>cmr/element.h\<close> is not among the
  sources). The spec describes a tagged value distinguishing "row r" from "column c" with 0
  reserved for "none/invalid"; \<open>NoElement\<close> stands for that 0.
\<close>

datatype CMR_ELEMENT = NoElement | RowElement nat | ColumnElement nat

definition CMRrowToElement :: "nat \<Rightarrow> CMR_ELEMENT" where
  "CMRrowToElement row = RowElement row"

definition CMRcolumnToElement :: "nat \<Rightarrow> CMR_ELEMENT" where
  "CMRcolumnToElement column = ColumnElement column"

definition CMRelementIsValid :: "CMR_ELEMENT \<Rightarrow> bool" where
  "CMRelementIsValid element = (element \<noteq> NoElement)"

fun CMRelementIsRow :: "CMR_ELEMENT \<Rightarrow> bool" where
  "CMRelementIsRow (RowElement r) = True"
| "CMRelementIsRow _ = False"

fun CMRelementTranspose :: "CMR_ELEMENT \<Rightarrow> CMR_ELEMENT" where
  "CMRelementTranspose NoElement = NoElement"
| "CMRelementTranspose (RowElement r) = ColumnElement r"
| "CMRelementTranspose (ColumnElement c) = RowElement c"

text \<open>
  The sparse matrix in compressed-row form, as the code reads it: row \<open>r\<close> owns the entries
  \<open>rowSlice ! r ..< rowSlice ! (r + 1)\<close> of \<open>entryColumns\<close>. The entry values are never
  read by this file (only the support matters), so the record leaves them out.
\<close>

record CMR_CHRMAT =
  numRows :: nat
  numColumns :: nat
  rowSlice :: "nat list"
  entryColumns :: "nat list"

section \<open>Hash oracle\<close>

text \<open>
  \<^verbatim>\<open>projectSignedHash\<close> is declared in \<^verbatim>\<open>hashtable.h\<close>, which is not among the sources; it
  is taken as the parameter \<open>proj\<close> of every function that calls it. Hash values are
  \<^verbatim>\<open>long long\<close>; they are modelled as \<open>int\<close>, the projection keeping them in range.
\<close>

text \<open>\<^verbatim>\<open>createHashVector\<close>: \<open>h\<close> is a \<^verbatim>\<open>size_t\<close>, so \<open>3 * h\<close> wraps at 64 bits.\<close>

fun createHashVector_loop :: "(int \<Rightarrow> int) \<Rightarrow> nat \<Rightarrow> 64 word \<Rightarrow> int list" where
  "createHashVector_loop proj 0 h = []"
| "createHashVector_loop proj (Suc n) h =
     sint h # createHashVector_loop proj n (word_of_int (proj (sint (3 * h))))"

definition createHashVector :: "(int \<Rightarrow> int) \<Rightarrow> nat \<Rightarrow> int list" where
  "createHashVector proj sz = createHashVector_loop proj sz 1"

text \<open>The first loop of \<^verbatim>\<open>findParallel\<close>: hash and count of the nonzeros in the prefix.\<close>

function findParallel_hash ::
  "(int \<Rightarrow> int) \<Rightarrow> CMR_CHRMAT \<Rightarrow> nat \<Rightarrow> int list \<Rightarrow> nat \<Rightarrow> nat \<Rightarrow> int \<Rightarrow> nat \<Rightarrow> int \<times> nat" where
  "findParallel_hash proj matrix numColumns' hashVector e beyond hashValue countNonzeros =
     (if e < beyond then
        (let column = entryColumns matrix ! e in
         if column < numColumns' then
           findParallel_hash proj matrix numColumns' hashVector (e + 1) beyond
             (proj (hashValue + hashVector ! column)) (countNonzeros + 1)
         else (hashValue, countNonzeros))
      else (hashValue, countNonzeros))"
  by pat_completeness auto
termination
  by (relation "measure (\<lambda>(proj, matrix, numColumns', hashVector, e, beyond, h, c). beyond - e)") auto

text \<open>The \<^verbatim>\<open>while\<close> loop of \<^verbatim>\<open>findParallel\<close>; its value is \<^verbatim>\<open>isParallel\<close>.\<close>

function findParallel_compare :: "CMR_CHRMAT \<Rightarrow> nat \<Rightarrow> nat \<Rightarrow> nat \<Rightarrow> nat \<Rightarrow> nat \<Rightarrow> bool" where
  "findParallel_compare matrix numColumns' e beyond e2 beyond2 =
     (if e < beyond \<and> e2 < beyond2 then
        (let column = entryColumns matrix ! e; column2 = entryColumns matrix ! e2 in
         if column \<ge> numColumns' \<and> column2 \<ge> numColumns' then True
         else if column \<noteq> column2 then False
         else findParallel_compare matrix numColumns' (e + 1) beyond (e2 + 1) beyond2)
      else True)"
  by pat_completeness auto
termination
  by (relation "measure (\<lambda>(matrix, numColumns', e, beyond, e2, beyond2). beyond - e)") auto

text \<open>The scan over the rows processed so far.\<close>

function findParallel_rows ::
  "CMR_CHRMAT \<Rightarrow> nat \<Rightarrow> nat \<Rightarrow> int list \<Rightarrow> int \<Rightarrow> nat \<Rightarrow> nat \<Rightarrow> nat \<Rightarrow> CMR_ELEMENT" where
  "findParallel_rows matrix numRows' numColumns' rowHashValues hashValue first beyond row2 =
     (if row2 < numRows' then
        (if rowHashValues ! row2 \<noteq> hashValue then
           findParallel_rows matrix numRows' numColumns' rowHashValues hashValue first beyond (row2 + 1)
         else if findParallel_compare matrix numColumns' first beyond
                   (rowSlice matrix ! row2) (rowSlice matrix ! (row2 + 1))
         then CMRrowToElement row2
         else findParallel_rows matrix numRows' numColumns' rowHashValues hashValue first beyond (row2 + 1))
      else NoElement)"
  by pat_completeness auto
termination
  by (relation "measure (\<lambda>(matrix, numRows', numColumns', rhv, hv, first, beyond, row2). numRows' - row2)") auto

definition findParallel ::
  "(int \<Rightarrow> int) \<Rightarrow> CMR_CHRMAT \<Rightarrow> nat \<Rightarrow> nat \<Rightarrow> nat \<Rightarrow> int list \<Rightarrow> int list \<Rightarrow> error + CMR_ELEMENT" where
  "findParallel proj matrix row numRows' numColumns' rowHashValues hashVector =
     (let first = rowSlice matrix ! row;
          beyond = rowSlice matrix ! (row + 1);
          (hashValue, countNonzeros) =
             findParallel_hash proj matrix numColumns' hashVector first beyond 0 0
      in if \<not> countNonzeros \<ge> 1 then Inl AssertionViolated
         else if countNonzeros = 1 then Inr (CMRcolumnToElement (entryColumns matrix ! first))
         else Inr (findParallel_rows matrix numRows' numColumns' rowHashValues hashValue first beyond 0))"

text \<open>\<^verbatim>\<open>updateHashValues\<close>: the inner loop over the entries of one major index.\<close>

function updateHashValues_entries ::
  "(int \<Rightarrow> int) \<Rightarrow> CMR_CHRMAT \<Rightarrow> int list \<Rightarrow> nat \<Rightarrow> nat \<Rightarrow> nat \<Rightarrow> nat \<Rightarrow>
     int list \<times> int list \<Rightarrow> int list \<times> int list" where
  "updateHashValues_entries proj matrix hashVector minorSize major e beyond (majorHashValues, minorHashValues) =
     (if e < beyond then
        (let minor = entryColumns matrix ! e in
         if minor < minorSize then
           updateHashValues_entries proj matrix hashVector minorSize major (e + 1) beyond
             (majorHashValues[major := proj (majorHashValues ! major + hashVector ! minor)],
              minorHashValues[minor := proj (minorHashValues ! minor + hashVector ! major)])
         else (majorHashValues, minorHashValues))
      else (majorHashValues, minorHashValues))"
  by pat_completeness auto
termination
  by (relation "measure (\<lambda>(proj, matrix, hashVector, minorSize, major, e, beyond, hs). beyond - e)") auto

function updateHashValues ::
  "(int \<Rightarrow> int) \<Rightarrow> CMR_CHRMAT \<Rightarrow> int list \<times> int list \<Rightarrow> int list \<Rightarrow> nat \<Rightarrow> nat \<Rightarrow> nat \<Rightarrow>
     int list \<times> int list" where
  "updateHashValues proj matrix hashValues hashVector majorFirst majorBeyond minorSize =
     (if majorFirst < majorBeyond then
        updateHashValues proj matrix
          (updateHashValues_entries proj matrix hashVector minorSize majorFirst
             (rowSlice matrix ! majorFirst) (rowSlice matrix ! (majorFirst + 1)) hashValues)
          hashVector (majorFirst + 1) majorBeyond minorSize
      else hashValues)"
  by pat_completeness auto
termination
  by (relation "measure (\<lambda>(proj, matrix, hs, hashVector, majorFirst, majorBeyond, minorSize).
        majorBeyond - majorFirst)") auto


section \<open>Errors and the graph abstraction\<close>

definition ebind :: "error + 'a \<Rightarrow> ('a \<Rightarrow> error + 'b) \<Rightarrow> error + 'b" where
  "ebind m f = (case m of Inl e \<Rightarrow> Inl e | Inr x \<Rightarrow> f x)"

text \<open>
  Modelled from the spec: the graph data type (\<^verbatim>\<open>graph.c\<close> is not among the sources). The
  spec asks for a graph abstraction offering add-node, add-edge (returning a stable edge
  identifier), delete-edge, and forward iteration over a node's incident edges and over all
  nodes and edges. Nodes are \<open>0 ..< graphNumNodes\<close> (this file never deletes a node); edge
  \<open>e\<close> is the slot \<open>graphEdges ! e\<close>, holding its end nodes \<open>(u, v)\<close> or \<open>None\<close> once
  deleted; freed slots are reused last-in first-out, so deleting an edge and adding one
  gives the same identifier back, which the handlers assert.
\<close>

record CMR_GRAPH =
  graphNumNodes :: nat
  graphEdges :: "(nat \<times> nat) option list"
  graphFreeEdges :: "nat list"

definition CMRgraphCreateEmpty :: CMR_GRAPH where
  "CMRgraphCreateEmpty = \<lparr>graphNumNodes = 0, graphEdges = [], graphFreeEdges = []\<rparr>"

definition CMRgraphAddNode :: "CMR_GRAPH \<Rightarrow> CMR_GRAPH \<times> nat" where
  "CMRgraphAddNode g = (g\<lparr>graphNumNodes := graphNumNodes g + 1\<rparr>, graphNumNodes g)"

definition CMRgraphAddEdge :: "CMR_GRAPH \<Rightarrow> nat \<Rightarrow> nat \<Rightarrow> CMR_GRAPH \<times> nat" where
  "CMRgraphAddEdge g u v =
     (case graphFreeEdges g of
        [] \<Rightarrow> (g\<lparr>graphEdges := graphEdges g @ [Some (u, v)]\<rparr>, length (graphEdges g))
      | e # free \<Rightarrow> (g\<lparr>graphEdges := (graphEdges g)[e := Some (u, v)], graphFreeEdges := free\<rparr>, e))"

definition CMRgraphDeleteEdge :: "CMR_GRAPH \<Rightarrow> nat \<Rightarrow> CMR_GRAPH" where
  "CMRgraphDeleteEdge g e =
     g\<lparr>graphEdges := (graphEdges g)[e := None], graphFreeEdges := e # graphFreeEdges g\<rparr>"

text \<open>\<^verbatim>\<open>CMRgraphEdgeU\<close> and \<^verbatim>\<open>CMRgraphEdgeV\<close> of an edge, read together.\<close>

definition CMRgraphEdgeUV :: "CMR_GRAPH \<Rightarrow> nat \<Rightarrow> error + nat \<times> nat" where
  "CMRgraphEdgeUV g e =
     (if e < length (graphEdges g) then
        (case graphEdges g ! e of None \<Rightarrow> Inl InvalidAccess | Some uv \<Rightarrow> Inr uv)
      else Inl InvalidAccess)"

text \<open>The iteration over all nodes, and over the incident edges of a node: pairs of the
  edge and the end node away from \<open>v\<close> (a loop is met twice).\<close>

definition CMRgraphNodes :: "CMR_GRAPH \<Rightarrow> nat list" where
  "CMRgraphNodes g = [0..<graphNumNodes g]"

definition CMRgraphInc :: "CMR_GRAPH \<Rightarrow> nat \<Rightarrow> (nat \<times> nat) list" where
  "CMRgraphInc g v =
     concat (map (\<lambda>e. case graphEdges g ! e of
                         None \<Rightarrow> []
                       | Some (a, b) \<Rightarrow> (if a = v then [(e, b)] else []) @ (if b = v then [(e, a)] else []))
                 [0..<length (graphEdges g)])"

text \<open>
  The witness graph state the handlers work on: the graph and the two edge maps. An entry
  of an edge map that was never written holds \<open>None\<close>.
\<close>

record graphic_state =
  stGraph :: CMR_GRAPH
  stRowEdges :: "nat option list"
  stColumnEdges :: "nat option list"

definition readEdge :: "nat option list \<Rightarrow> nat \<Rightarrow> error + nat" where
  "readEdge edges i =
     (if i < length edges then
        (case edges ! i of None \<Rightarrow> Inl InvalidAccess | Some e \<Rightarrow> Inr e)
      else Inl InvalidAccess)"

definition writeEdge :: "nat option list \<Rightarrow> nat \<Rightarrow> nat \<Rightarrow> error + nat option list" where
  "writeEdge edges i e = (if i < length edges then Inr (edges[i := Some e]) else Inl InvalidAccess)"

text \<open>The edge of the element a new line is parallel to, as every small handler resolves it.\<close>

fun elementEdge :: "graphic_state \<Rightarrow> CMR_ELEMENT \<Rightarrow> error + nat" where
  "elementEdge st (RowElement r) = readEdge (stRowEdges st) r"
| "elementEdge st (ColumnElement c) = readEdge (stColumnEdges st) c"
| "elementEdge st NoElement = Inl InvalidAccess"

section \<open>The small extension handlers\<close>

definition checkEdgesAdjacent :: "CMR_GRAPH \<Rightarrow> nat \<Rightarrow> nat \<Rightarrow> error + (nat \<times> nat \<times> nat) option" where
  "checkEdgesAdjacent g e f =
     ebind (CMRgraphEdgeUV g e) (\<lambda>(eU, eV).
     ebind (CMRgraphEdgeUV g f) (\<lambda>(fU, fV).
       Inr (if eU = fU then Some (eU, eV, fV)
            else if eU = fV then Some (eU, eV, fU)
            else if eV = fU then Some (eV, eU, fV)
            else if eV = fV then Some (eV, eU, fU)
            else None)))"

definition addToGraph1Row1Column ::
  "graphic_state \<Rightarrow> nat \<Rightarrow> nat \<Rightarrow> CMR_ELEMENT \<Rightarrow> CMR_ELEMENT \<Rightarrow> error + graphic_state \<times> bool" where
  "addToGraph1Row1Column st baseNumRows baseNumColumns rowParallel columnParallel =
     (if \<not> (baseNumRows \<ge> 3 \<and> baseNumColumns \<ge> 3
             \<and> CMRelementIsValid rowParallel \<and> CMRelementIsValid columnParallel)
      then Inl AssertionViolated
      else
        ebind (elementEdge st rowParallel) (\<lambda>rowEdge.
        ebind (elementEdge st columnParallel) (\<lambda>columnEdge.
        ebind (checkEdgesAdjacent (stGraph st) rowEdge columnEdge) (\<lambda>adjacent.
          case adjacent of
            None \<Rightarrow> Inr (st, False)
          | Some (common, rowOther, columnOther) \<Rightarrow>
              (let (g1, rowSplit) = CMRgraphAddNode (stGraph st);
                   g2 = CMRgraphDeleteEdge g1 rowEdge;
                   (g3, modifiedRowEdge) = CMRgraphAddEdge g2 rowOther rowSplit;
                   (g4, newRowEdge) = CMRgraphAddEdge g3 rowSplit common;
                   (g5, newColumnEdge) = CMRgraphAddEdge g4 rowSplit columnOther
               in if modifiedRowEdge \<noteq> rowEdge then Inl AssertionViolated
                  else
                    ebind (writeEdge (stRowEdges st) baseNumRows newRowEdge) (\<lambda>rowEdges'.
                    ebind (writeEdge (stColumnEdges st) baseNumColumns newColumnEdge) (\<lambda>columnEdges'.
                      Inr (\<lparr>stGraph = g5, stRowEdges = rowEdges', stColumnEdges = columnEdges'\<rparr>, True))))))))"

definition addToGraph2Rows1Column ::
  "graphic_state \<Rightarrow> nat \<Rightarrow> nat \<Rightarrow> CMR_ELEMENT \<Rightarrow> CMR_ELEMENT \<Rightarrow> error + graphic_state \<times> bool" where
  "addToGraph2Rows1Column st baseNumRows baseNumColumns row1Parallel row2Parallel =
     (if \<not> (baseNumRows \<ge> 3 \<and> baseNumColumns \<ge> 3
             \<and> CMRelementIsValid row1Parallel \<and> CMRelementIsValid row2Parallel)
      then Inl AssertionViolated
      else
        ebind (elementEdge st row1Parallel) (\<lambda>row1Edge.
        ebind (elementEdge st row2Parallel) (\<lambda>row2Edge.
        ebind (checkEdgesAdjacent (stGraph st) row1Edge row2Edge) (\<lambda>adjacent.
          case adjacent of
            None \<Rightarrow> Inr (st, False)
          | Some (common, other1, other2) \<Rightarrow>
              (let (g1, row1Split) = CMRgraphAddNode (stGraph st);
                   g2 = CMRgraphDeleteEdge g1 row1Edge;
                   (g3, modifiedRow1Edge) = CMRgraphAddEdge g2 other1 row1Split;
                   (g4, newRow1Edge) = CMRgraphAddEdge g3 row1Split common
               in if modifiedRow1Edge \<noteq> row1Edge then Inl AssertionViolated
                  else
                    (let (g5, row2Split) = CMRgraphAddNode g4;
                         g6 = CMRgraphDeleteEdge g5 row2Edge;
                         (g7, modifiedRow2Edge) = CMRgraphAddEdge g6 other2 row2Split;
                         (g8, newRow2Edge) = CMRgraphAddEdge g7 row2Split common
                     in if modifiedRow2Edge \<noteq> row2Edge then Inl AssertionViolated
                        else
                          (let (g9, newColumnEdge) = CMRgraphAddEdge g8 row1Split row2Split
                           in ebind (writeEdge (stRowEdges st) baseNumRows newRow1Edge) (\<lambda>rowEdges1.
                              ebind (writeEdge rowEdges1 (baseNumRows + 1) newRow2Edge) (\<lambda>rowEdges2.
                              ebind (writeEdge (stColumnEdges st) baseNumColumns newColumnEdge) (\<lambda>columnEdges'.
                                Inr (\<lparr>stGraph = g9, stRowEdges = rowEdges2, stColumnEdges = columnEdges'\<rparr>,
                                     True)))))))))))"

definition addToGraph1Row2Columns ::
  "graphic_state \<Rightarrow> nat \<Rightarrow> nat \<Rightarrow> CMR_ELEMENT \<Rightarrow> CMR_ELEMENT \<Rightarrow> error + graphic_state \<times> bool" where
  "addToGraph1Row2Columns st baseNumRows baseNumColumns column1Parallel column2Parallel =
     (if \<not> (baseNumRows \<ge> 3 \<and> baseNumColumns \<ge> 3
             \<and> CMRelementIsValid column1Parallel \<and> CMRelementIsValid column2Parallel)
      then Inl AssertionViolated
      else
        ebind (elementEdge st column1Parallel) (\<lambda>column1Edge.
        ebind (elementEdge st column2Parallel) (\<lambda>column2Edge.
        ebind (checkEdgesAdjacent (stGraph st) column1Edge column2Edge) (\<lambda>adjacent.
          case adjacent of
            None \<Rightarrow> Inr (st, False)
          | Some (common, other1, other2) \<Rightarrow>
              (let (g1, newNode) = CMRgraphAddNode (stGraph st);
                   (g2, newColumn1Edge) = CMRgraphAddEdge g1 other1 newNode;
                   (g3, newColumn2Edge) = CMRgraphAddEdge g2 other2 newNode;
                   (g4, newRowEdge) = CMRgraphAddEdge g3 common newNode
               in ebind (writeEdge (stColumnEdges st) baseNumColumns newColumn1Edge) (\<lambda>columnEdges1.
                  ebind (writeEdge columnEdges1 (baseNumColumns + 1) newColumn2Edge) (\<lambda>columnEdges2.
                  ebind (writeEdge (stRowEdges st) baseNumRows newRowEdge) (\<lambda>rowEdges'.
                    Inr (\<lparr>stGraph = g4, stRowEdges = rowEdges', stColumnEdges = columnEdges2\<rparr>, True)))))))))"


section \<open>The general one-column handler\<close>

text \<open>One \<^verbatim>\<open>++nodeDegrees[v]\<close> with the update of \<^verbatim>\<open>countLeaves\<close> (a \<^verbatim>\<open>size_t\<close>, so the decrement
  wraps at 64 bits).\<close>

definition countDegree :: "nat \<Rightarrow> nat list \<times> nat \<Rightarrow> nat list \<times> nat" where
  "countDegree v dc =
     (case dc of (nodeDegrees, countLeaves) \<Rightarrow>
        (let deg = nodeDegrees ! v + 1
         in (nodeDegrees[v := deg],
             if deg = 1 then countLeaves + 1
             else if deg = 2 then unat (word_of_nat countLeaves - 1 :: 64 word)
             else countLeaves)))"

fun addToGraph1Column_degrees ::
  "graphic_state \<Rightarrow> nat list \<Rightarrow> nat list \<times> nat \<Rightarrow> error + nat list \<times> nat" where
  "addToGraph1Column_degrees st [] dc = Inr dc"
| "addToGraph1Column_degrees st (row # nonzeroRows) dc =
     ebind (readEdge (stRowEdges st) row) (\<lambda>e.
     ebind (CMRgraphEdgeUV (stGraph st) e) (\<lambda>(u, v).
       if u < length (fst dc) \<and> v < length (fst dc)
       then addToGraph1Column_degrees st nonzeroRows (countDegree v (countDegree u dc))
       else Inl InvalidAccess))"

text \<open>The scan for the two nodes of degree 1: \<^verbatim>\<open>nodes[0]\<close> takes the first, \<^verbatim>\<open>nodes[1]\<close> every
  later one; \<open>None\<close> is the initial \<open>-1\<close>.\<close>

fun addToGraph1Column_leaves :: "nat list \<Rightarrow> nat list \<Rightarrow> nat option \<times> nat option \<Rightarrow> nat option \<times> nat option" where
  "addToGraph1Column_leaves nodeDegrees [] nodes = nodes"
| "addToGraph1Column_leaves nodeDegrees (v # vs) nodes =
     (if nodeDegrees ! v = 1 then
        (if fst nodes = None then addToGraph1Column_leaves nodeDegrees vs (Some v, snd nodes)
         else addToGraph1Column_leaves nodeDegrees vs (fst nodes, Some v))
      else addToGraph1Column_leaves nodeDegrees vs nodes)"

definition addToGraph1Column ::
  "graphic_state \<Rightarrow> nat \<Rightarrow> nat \<Rightarrow> nat list \<Rightarrow> error + graphic_state \<times> bool" where
  "addToGraph1Column st baseNumRows baseNumColumns nonzeroRows =
     (if \<not> (baseNumRows \<ge> 3 \<and> baseNumColumns \<ge> 3 \<and> length nonzeroRows \<le> baseNumRows)
      then Inl AssertionViolated
      else
        ebind (addToGraph1Column_degrees st nonzeroRows
                 (replicate (graphNumNodes (stGraph st)) 0, 0)) (\<lambda>(nodeDegrees, countLeaves).
          if countLeaves = 2 then
            (case addToGraph1Column_leaves nodeDegrees (CMRgraphNodes (stGraph st)) (None, None) of
               (Some node0, Some node1) \<Rightarrow>
                 (let (g1, newColumnEdge) = CMRgraphAddEdge (stGraph st) node0 node1
                  in ebind (writeEdge (stColumnEdges st) baseNumColumns newColumnEdge) (\<lambda>columnEdges'.
                       Inr (st\<lparr>stGraph := g1, stColumnEdges := columnEdges'\<rparr>, True)))
             | _ \<Rightarrow> Inl InvalidAccess)
          else Inr (st, False)))"

section \<open>Graph-state utilities\<close>

text \<open>
  The four depth-first traversals are recursive in the source. Each is modelled by a pair
  of functions: the call on a node, and the loop over the incident edges of that node. The
  first argument is the recursion budget; a node or edge index outside its array is an
  \<open>InvalidAccess\<close>.
\<close>

text \<open>\<^verbatim>\<open>dfsArticulationPoint\<close>: the state is \<^verbatim>\<open>nodesVisited\<close>, \<^verbatim>\<open>nodesDiscoveryTime\<close>, \<^verbatim>\<open>*ptime\<close>
  and \<^verbatim>\<open>nodesArticulationPoint\<close>; the loop also carries \<^verbatim>\<open>numChildren\<close> and
  \<^verbatim>\<open>earliestReachableTime\<close>. \<open>parentNode = None\<close> is the source's \<open>-1\<close>.\<close>

type_synonym ap_state = "bool list \<times> nat list \<times> nat \<times> nat list"

fun dfsArticulationPoint ::
  "nat \<Rightarrow> CMR_GRAPH \<Rightarrow> bool list \<Rightarrow> nat \<Rightarrow> nat option \<Rightarrow> ap_state \<Rightarrow> error + nat \<times> ap_state"
and dfsArticulationPoint_inc ::
  "nat \<Rightarrow> CMR_GRAPH \<Rightarrow> bool list \<Rightarrow> nat \<Rightarrow> nat option \<Rightarrow> (nat \<times> nat) list \<Rightarrow> nat \<Rightarrow> nat \<Rightarrow> ap_state
     \<Rightarrow> error + nat \<times> nat \<times> ap_state" where
  "dfsArticulationPoint 0 g edgesEnabled node parentNode s = Inl FuelExhausted"
| "dfsArticulationPoint (Suc fuel) g edgesEnabled node parentNode (nodesVisited, nodesDiscoveryTime, time, nodesArticulationPoint) =
     (if node < length nodesVisited \<and> node < length nodesDiscoveryTime \<and> node < length nodesArticulationPoint then
        (case dfsArticulationPoint_inc fuel g edgesEnabled node parentNode (CMRgraphInc g node) 0 (time + 1)
                (nodesVisited[node := True], nodesDiscoveryTime[node := time + 1], time + 1, nodesArticulationPoint) of
           Inl err \<Rightarrow> Inl err
         | Inr (numChildren, earliestReachableTime, (visited', discoveryTime', time', articulationPoint')) \<Rightarrow>
             Inr (earliestReachableTime,
                  (visited', discoveryTime', time',
                   if parentNode = None \<and> numChildren > 1 then articulationPoint'[node := 1]
                   else articulationPoint')))
      else Inl InvalidAccess)"
| "dfsArticulationPoint_inc fuel g edgesEnabled node parentNode [] numChildren earliestReachableTime s =
     Inr (numChildren, earliestReachableTime, s)"
| "dfsArticulationPoint_inc fuel g edgesEnabled node parentNode ((e, v) # inc) numChildren earliestReachableTime
       (nodesVisited, nodesDiscoveryTime, time, nodesArticulationPoint) =
     (if \<not> e < length edgesEnabled then Inl InvalidAccess
      else if \<not> edgesEnabled ! e then
        dfsArticulationPoint_inc fuel g edgesEnabled node parentNode inc numChildren earliestReachableTime
          (nodesVisited, nodesDiscoveryTime, time, nodesArticulationPoint)
      else if \<not> (v < length nodesVisited \<and> v < length nodesDiscoveryTime) then Inl InvalidAccess
      else if \<not> nodesVisited ! v then
        (case dfsArticulationPoint fuel g edgesEnabled v (Some node)
                (nodesVisited, nodesDiscoveryTime, time, nodesArticulationPoint) of
           Inl err \<Rightarrow> Inl err
         | Inr (childEarliestReachableTime, (visited', discoveryTime', time', articulationPoint')) \<Rightarrow>
             dfsArticulationPoint_inc fuel g edgesEnabled node parentNode inc (numChildren + 1)
               (if childEarliestReachableTime < earliestReachableTime then childEarliestReachableTime
                else earliestReachableTime)
               (visited', discoveryTime', time',
                if parentNode \<noteq> None \<and> childEarliestReachableTime \<ge> discoveryTime' ! node
                then articulationPoint'[node := 1] else articulationPoint'))
      else if Some v \<noteq> parentNode \<and> nodesDiscoveryTime ! v < earliestReachableTime then
        dfsArticulationPoint_inc fuel g edgesEnabled node parentNode inc numChildren (nodesDiscoveryTime ! v)
          (nodesVisited, nodesDiscoveryTime, time, nodesArticulationPoint)
      else
        dfsArticulationPoint_inc fuel g edgesEnabled node parentNode inc numChildren earliestReachableTime
          (nodesVisited, nodesDiscoveryTime, time, nodesArticulationPoint))"

text \<open>The loops of the shape \<^verbatim>\<open>for (i ...) array[edges[indices[i]]] = value\<close>: they disable
  the edges of the new row's nonzero columns (the 1-edges), enable the tree edges, and mark
  the 1-edges.\<close>

fun setEdges :: "bool \<Rightarrow> nat option list \<Rightarrow> nat list \<Rightarrow> bool list \<Rightarrow> error + bool list" where
  "setEdges b edges [] array = Inr array"
| "setEdges b edges (i # indices) array =
     ebind (readEdge edges i) (\<lambda>e.
       if e < length array then setEdges b edges indices (array[e := b])
       else Inl InvalidAccess)"

definition findArticulationPoints :: "CMR_GRAPH \<Rightarrow> nat option list \<Rightarrow> nat list \<Rightarrow> error + nat list" where
  "findArticulationPoints g columnEdges nonzeroColumns =
     ebind (setEdges False columnEdges nonzeroColumns (replicate (length (graphEdges g)) True)) (\<lambda>edgesEnabled.
       if graphNumNodes g = 0 then Inl InvalidAccess
       else
         ebind (dfsArticulationPoint (graphNumNodes g) g edgesEnabled 0 None
                  (replicate (graphNumNodes g) False, replicate (graphNumNodes g) 0, 0,
                   replicate (graphNumNodes g) 0))
           (\<lambda>(earliest, (visited, discoveryTime, time, nodesArticulationPoint)).
              Inr nodesArticulationPoint))"


text \<open>\<^verbatim>\<open>dfsTree\<close>: the state is \<^verbatim>\<open>nodesVisited\<close> and \<^verbatim>\<open>nodesParent\<close> (\<open>None\<close> is a negative
  entry, as the \<open>-1\<close> of the root).\<close>

fun dfsTree ::
  "nat \<Rightarrow> CMR_GRAPH \<Rightarrow> bool list \<Rightarrow> nat \<Rightarrow> bool list \<times> nat option list \<Rightarrow> error + bool list \<times> nat option list"
and dfsTree_inc ::
  "nat \<Rightarrow> CMR_GRAPH \<Rightarrow> bool list \<Rightarrow> nat \<Rightarrow> (nat \<times> nat) list \<Rightarrow> bool list \<times> nat option list
     \<Rightarrow> error + bool list \<times> nat option list" where
  "dfsTree 0 g edgesTree node s = Inl FuelExhausted"
| "dfsTree (Suc fuel) g edgesTree node (nodesVisited, nodesParent) =
     (if node < length nodesVisited then
        dfsTree_inc fuel g edgesTree node (CMRgraphInc g node) (nodesVisited[node := True], nodesParent)
      else Inl InvalidAccess)"
| "dfsTree_inc fuel g edgesTree node [] s = Inr s"
| "dfsTree_inc fuel g edgesTree node ((e, v) # inc) (nodesVisited, nodesParent) =
     (if \<not> e < length edgesTree then Inl InvalidAccess
      else if edgesTree ! e then
        (if \<not> (v < length nodesVisited \<and> v < length nodesParent) then Inl InvalidAccess
         else if \<not> nodesVisited ! v then
           (case dfsTree fuel g edgesTree v (nodesVisited, nodesParent[v := Some node]) of
              Inl err \<Rightarrow> Inl err
            | Inr s' \<Rightarrow> dfsTree_inc fuel g edgesTree node inc s')
         else dfsTree_inc fuel g edgesTree node inc (nodesVisited, nodesParent))
      else dfsTree_inc fuel g edgesTree node inc (nodesVisited, nodesParent))"

text \<open>
  \<^verbatim>\<open>findTreeParents\<close> allocates \<^verbatim>\<open>nodesVisited\<close> and, unlike the three other utilities, does
  not initialise it; \<^verbatim>\<open>nodesParent\<close> is allocated by the caller and written only at the
  root and at the nodes the traversal reaches. What the allocator
  (\<^verbatim>\<open>CMRallocStackArray\<close>, not among the sources) delivers is therefore a parameter: the
  initial contents \<open>scratchVisited\<close> and \<open>scratchParent\<close> of the two arrays, by index.
\<close>

definition findTreeParents ::
  "(nat \<Rightarrow> bool) \<Rightarrow> (nat \<Rightarrow> nat option) \<Rightarrow> CMR_GRAPH \<Rightarrow> nat option list \<Rightarrow> nat \<Rightarrow> error + nat option list" where
  "findTreeParents scratchVisited scratchParent g rowEdges numRows' =
     ebind (setEdges True rowEdges [0..<numRows'] (replicate (length (graphEdges g)) False)) (\<lambda>edgesTree.
       if graphNumNodes g = 0 then Inl InvalidAccess
       else
         ebind (dfsTree (Suc (graphNumNodes g)) g edgesTree 0
                  (map scratchVisited [0..<graphNumNodes g],
                   (map scratchParent [0..<graphNumNodes g])[0 := None]))
           (\<lambda>(visited, nodesParent). Inr nodesParent))"

text \<open>\<^verbatim>\<open>dfsComponents\<close>: \<open>None\<close> in \<^verbatim>\<open>nodesComponent\<close> is the source's \<^verbatim>\<open>SIZE_MAX\<close>.\<close>

fun dfsComponents ::
  "nat \<Rightarrow> CMR_GRAPH \<Rightarrow> bool list \<Rightarrow> nat \<Rightarrow> nat \<Rightarrow> nat option list \<Rightarrow> error + nat option list"
and dfsComponents_inc ::
  "nat \<Rightarrow> CMR_GRAPH \<Rightarrow> bool list \<Rightarrow> nat \<Rightarrow> (nat \<times> nat) list \<Rightarrow> nat option list \<Rightarrow> error + nat option list" where
  "dfsComponents 0 g edgesEnabled node component nodesComponent = Inl FuelExhausted"
| "dfsComponents (Suc fuel) g edgesEnabled node component nodesComponent =
     (if node < length nodesComponent then
        dfsComponents_inc fuel g edgesEnabled component (CMRgraphInc g node) (nodesComponent[node := Some component])
      else Inl InvalidAccess)"
| "dfsComponents_inc fuel g edgesEnabled component [] nodesComponent = Inr nodesComponent"
| "dfsComponents_inc fuel g edgesEnabled component ((e, v) # inc) nodesComponent =
     (if \<not> e < length edgesEnabled then Inl InvalidAccess
      else if edgesEnabled ! e then
        (if \<not> v < length nodesComponent then Inl InvalidAccess
         else if nodesComponent ! v = None then
           (case dfsComponents fuel g edgesEnabled v component nodesComponent of
              Inl err \<Rightarrow> Inl err
            | Inr nodesComponent' \<Rightarrow> dfsComponents_inc fuel g edgesEnabled component inc nodesComponent')
         else dfsComponents_inc fuel g edgesEnabled component inc nodesComponent)
      else dfsComponents_inc fuel g edgesEnabled component inc nodesComponent)"

text \<open>The loop of \<^verbatim>\<open>findComponents\<close> over the source nodes; it carries \<^verbatim>\<open>component\<close>.\<close>

fun findComponents_sources ::
  "CMR_GRAPH \<Rightarrow> bool list \<Rightarrow> nat \<Rightarrow> nat list \<Rightarrow> nat option list \<times> nat \<Rightarrow> error + nat option list \<times> nat" where
  "findComponents_sources g edgesEnabled removedNode [] s = Inr s"
| "findComponents_sources g edgesEnabled removedNode (source # sources) (nodesComponent, component) =
     (if \<not> source < length nodesComponent then Inl InvalidAccess
      else if nodesComponent ! source = None \<and> source \<noteq> removedNode then
        ebind (dfsComponents (graphNumNodes g) g edgesEnabled source component nodesComponent)
          (\<lambda>nodesComponent'.
             findComponents_sources g edgesEnabled removedNode sources (nodesComponent', component + 1))
      else findComponents_sources g edgesEnabled removedNode sources (nodesComponent, component))"

definition findComponents ::
  "CMR_GRAPH \<Rightarrow> nat option list \<Rightarrow> nat \<Rightarrow> nat list \<Rightarrow> error + nat option list \<times> nat" where
  "findComponents g columnEdges removedNode nonzeroColumns =
     (if \<not> removedNode < graphNumNodes g then Inl InvalidAccess
      else
        ebind (setEdges False columnEdges nonzeroColumns
                 (fold (\<lambda>(e, v) enabled. enabled[e := False]) (CMRgraphInc g removedNode)
                    (replicate (length (graphEdges g)) True))) (\<lambda>edgesEnabled.
          findComponents_sources g edgesEnabled removedNode (CMRgraphNodes g)
            (replicate (graphNumNodes g) None, 0)))"

text \<open>\<^verbatim>\<open>dfsBipartite\<close>: the state is \<^verbatim>\<open>nodesVisited\<close> and \<^verbatim>\<open>bipartition\<close>.\<close>

fun dfsBipartite ::
  "nat \<Rightarrow> CMR_GRAPH \<Rightarrow> nat \<Rightarrow> bool list \<times> int list \<Rightarrow> error + bool \<times> bool list \<times> int list"
and dfsBipartite_inc ::
  "nat \<Rightarrow> CMR_GRAPH \<Rightarrow> nat \<Rightarrow> (nat \<times> nat) list \<Rightarrow> bool list \<times> int list \<Rightarrow> error + bool \<times> bool list \<times> int list" where
  "dfsBipartite 0 g node s = Inl FuelExhausted"
| "dfsBipartite (Suc fuel) g node (nodesVisited, bipartition) =
     (if node < length nodesVisited \<and> node < length bipartition then
        dfsBipartite_inc fuel g node (CMRgraphInc g node) (nodesVisited[node := True], bipartition)
      else Inl InvalidAccess)"
| "dfsBipartite_inc fuel g node [] s = Inr (True, s)"
| "dfsBipartite_inc fuel g node ((e, v) # inc) (nodesVisited, bipartition) =
     (if \<not> (v < length nodesVisited \<and> v < length bipartition) then Inl InvalidAccess
      else if nodesVisited ! v then
        (if bipartition ! v = bipartition ! node then Inr (False, nodesVisited, bipartition)
         else dfsBipartite_inc fuel g node inc (nodesVisited, bipartition))
      else
        (case dfsBipartite fuel g v (nodesVisited, bipartition[v := 1 - bipartition ! node]) of
           Inl err \<Rightarrow> Inl err
         | Inr (isBipartite, s') \<Rightarrow>
             if \<not> isBipartite then Inr (False, s') else dfsBipartite_inc fuel g node inc s'))"

text \<open>The loop of \<^verbatim>\<open>findBipartition\<close> over the source nodes, with its \<^verbatim>\<open>break\<close>.\<close>

fun findBipartition_sources ::
  "CMR_GRAPH \<Rightarrow> nat list \<Rightarrow> bool list \<times> int list \<Rightarrow> error + bool \<times> bool list \<times> int list" where
  "findBipartition_sources g [] s = Inr (True, s)"
| "findBipartition_sources g (source # sources) (nodesVisited, bipartition) =
     (if \<not> (source < length nodesVisited \<and> source < length bipartition) then Inl InvalidAccess
      else if \<not> nodesVisited ! source then
        ebind (dfsBipartite (graphNumNodes g) g source (nodesVisited, bipartition[source := 0]))
          (\<lambda>(isBipartite, s').
             if \<not> isBipartite then Inr (False, s') else findBipartition_sources g sources s')
      else findBipartition_sources g sources (nodesVisited, bipartition))"

text \<open>\<^verbatim>\<open>findBipartition\<close> gives \<^verbatim>\<open>*pisBipartite\<close> and the array \<^verbatim>\<open>bipartition\<close>. An entry of
  \<^verbatim>\<open>bipartition\<close> is read only at a visited node, after it was written, so the contents
  the array starts with do not matter; they are 0 here.\<close>

definition findBipartition :: "CMR_GRAPH \<Rightarrow> error + bool \<times> int list" where
  "findBipartition g =
     ebind (findBipartition_sources g (CMRgraphNodes g)
              (replicate (graphNumNodes g) False, replicate (graphNumNodes g) 0))
       (\<lambda>(isBipartite, (visited, bipartition)). Inr (isBipartite, bipartition))"


section \<open>The general one-row handler\<close>

text \<open>The walk from an end node of a 1-edge up to the root, pushed on a stack of
  \<open>baseNumRows + 1\<close> entries; \<open>None\<close> is a negative node, which ends the walk.\<close>

fun pathToRoot :: "nat \<Rightarrow> nat option list \<Rightarrow> nat option \<Rightarrow> nat list \<Rightarrow> error + nat list" where
  "pathToRoot capacity nodesParent None nodeStack = Inr nodeStack"
| "pathToRoot 0 nodesParent (Some v) nodeStack = Inl InvalidAccess"
| "pathToRoot (Suc capacity) nodesParent (Some v) nodeStack =
     (if v < length nodesParent then pathToRoot capacity nodesParent (nodesParent ! v) (nodeStack @ [v])
      else Inl InvalidAccess)"

text \<open>The \<^verbatim>\<open>while\<close> loop that pops the common end of the two stacks.\<close>

function prunePaths :: "nat list \<Rightarrow> nat list \<Rightarrow> nat \<Rightarrow> nat \<Rightarrow> nat \<times> nat" where
  "prunePaths nodeStack0 nodeStack1 size0 size1 =
     (if size0 > 0 \<and> size1 > 0 \<and> nodeStack0 ! (size0 - 1) = nodeStack1 ! (size1 - 1)
      then prunePaths nodeStack0 nodeStack1 (size0 - 1) (size1 - 1)
      else (size0, size1))"
  by pat_completeness auto
termination
  by (relation "measure (\<lambda>(nodeStack0, nodeStack1, size0, size1). size0)") auto

text \<open>The marking of the candidates on the pruned paths of 1-edge number \<open>i\<close>.\<close>

fun markCandidates :: "nat \<Rightarrow> nat list \<Rightarrow> nat list \<times> nat \<times> nat option \<Rightarrow> nat list \<times> nat \<times> nat option" where
  "markCandidates i [] s = s"
| "markCandidates i (v # vs) (nodesCandidate, countCandidates, splitNode) =
     (if nodesCandidate ! v = i + 1 then
        markCandidates i vs (nodesCandidate[v := nodesCandidate ! v + 1], countCandidates + 1, Some v)
      else markCandidates i vs (nodesCandidate, countCandidates, splitNode))"

text \<open>The loop over the 1-edges, from 1-edge number \<open>i\<close> on, with its \<^verbatim>\<open>break\<close>.\<close>

fun addToGraph1Row_paths ::
  "CMR_GRAPH \<Rightarrow> nat option list \<Rightarrow> nat option list \<Rightarrow> nat \<Rightarrow> nat list \<Rightarrow> nat \<Rightarrow>
     nat list \<times> nat \<times> nat option \<Rightarrow> error + nat list \<times> nat \<times> nat option" where
  "addToGraph1Row_paths g columnEdges nodesParent baseNumRows [] i s = Inr s"
| "addToGraph1Row_paths g columnEdges nodesParent baseNumRows (column # nonzeroColumns) i
       (nodesCandidate, countCandidates, splitNode) =
     ebind (readEdge columnEdges column) (\<lambda>columnEdge.
     ebind (CMRgraphEdgeUV g columnEdge) (\<lambda>(u, v).
     ebind (pathToRoot (baseNumRows + 1) nodesParent (Some u) []) (\<lambda>nodeStack0.
     ebind (pathToRoot (baseNumRows + 1) nodesParent (Some v) []) (\<lambda>nodeStack1.
       case prunePaths nodeStack0 nodeStack1 (length nodeStack0) (length nodeStack1) of
         (size0, size1) \<Rightarrow>
           if \<not> size0 + 1 \<le> length nodeStack0 then Inl InvalidAccess
           else
             (case markCandidates i (take (size0 + 1) nodeStack0 @ take size1 nodeStack1)
                     (nodesCandidate, 0, splitNode) of
                (nodesCandidate', countCandidates', splitNode') \<Rightarrow>
                  if countCandidates' = 0 then Inr (nodesCandidate', countCandidates', splitNode')
                  else addToGraph1Row_paths g columnEdges nodesParent baseNumRows nonzeroColumns (i + 1)
                         (nodesCandidate', countCandidates', splitNode'))))))"

text \<open>The auxiliary graph: one node per component, one edge per 1-edge whose two end
  nodes both have a component.\<close>

fun addAuxiliaryNodes :: "nat \<Rightarrow> CMR_GRAPH \<Rightarrow> nat list \<Rightarrow> CMR_GRAPH \<times> nat list" where
  "addAuxiliaryNodes 0 auxiliaryGraph componentAuxiliaryNodes = (auxiliaryGraph, componentAuxiliaryNodes)"
| "addAuxiliaryNodes (Suc n) auxiliaryGraph componentAuxiliaryNodes =
     (case CMRgraphAddNode auxiliaryGraph of
        (auxiliaryGraph', node) \<Rightarrow> addAuxiliaryNodes n auxiliaryGraph' (componentAuxiliaryNodes @ [node]))"

fun addAuxiliaryEdges ::
  "CMR_GRAPH \<Rightarrow> nat option list \<Rightarrow> nat option list \<Rightarrow> nat list \<Rightarrow> nat list \<Rightarrow> CMR_GRAPH \<Rightarrow> error + CMR_GRAPH" where
  "addAuxiliaryEdges g columnEdges nodesComponent componentAuxiliaryNodes [] auxiliaryGraph = Inr auxiliaryGraph"
| "addAuxiliaryEdges g columnEdges nodesComponent componentAuxiliaryNodes (column # nonzeroColumns) auxiliaryGraph =
     ebind (readEdge columnEdges column) (\<lambda>e.
     ebind (CMRgraphEdgeUV g e) (\<lambda>(u, v).
       if \<not> (u < length nodesComponent \<and> v < length nodesComponent) then Inl InvalidAccess
       else
         (case (nodesComponent ! u, nodesComponent ! v) of
            (Some c0, Some c1) \<Rightarrow>
              if \<not> (c0 < length componentAuxiliaryNodes \<and> c1 < length componentAuxiliaryNodes)
              then Inl InvalidAccess
              else addAuxiliaryEdges g columnEdges nodesComponent componentAuxiliaryNodes nonzeroColumns
                     (fst (CMRgraphAddEdge auxiliaryGraph (componentAuxiliaryNodes ! c0)
                             (componentAuxiliaryNodes ! c1)))
          | _ \<Rightarrow> addAuxiliaryEdges g columnEdges nodesComponent componentAuxiliaryNodes nonzeroColumns
                   auxiliaryGraph)))"

text \<open>The re-assignment: every edge stored from the incidence list of the split node is
  moved to the sister node when its (for a 1-edge complemented) side is not 0.\<close>

fun addToGraph1Row_reassign ::
  "nat \<Rightarrow> nat \<Rightarrow> nat option list \<Rightarrow> nat list \<Rightarrow> int list \<Rightarrow> bool list \<Rightarrow> nat list \<Rightarrow> CMR_GRAPH
     \<Rightarrow> error + CMR_GRAPH" where
  "addToGraph1Row_reassign splitNode sisterNode nodesComponent componentAuxiliaryNodes bipartition edges1 [] g = Inr g"
| "addToGraph1Row_reassign splitNode sisterNode nodesComponent componentAuxiliaryNodes bipartition edges1
       (edge # incidentEdges) g =
     ebind (CMRgraphEdgeUV g edge) (\<lambda>(u, w).
       (let v = (if u = splitNode then w else u) in
        if \<not> (v < length nodesComponent \<and> edge < length edges1) then Inl InvalidAccess
        else
          (case nodesComponent ! v of
             None \<Rightarrow> Inl InvalidAccess
           | Some c \<Rightarrow>
               if \<not> c < length componentAuxiliaryNodes then Inl InvalidAccess
               else if \<not> componentAuxiliaryNodes ! c < length bipartition then Inl InvalidAccess
               else
                 (let side0 = bipartition ! (componentAuxiliaryNodes ! c);
                      side = (if edges1 ! edge then 1 - side0 else side0)
                  in if side \<noteq> 0 then
                       (case CMRgraphAddEdge (CMRgraphDeleteEdge g edge) v sisterNode of
                          (g', modifiedEdge) \<Rightarrow>
                            if modifiedEdge \<noteq> edge then Inl AssertionViolated
                            else addToGraph1Row_reassign splitNode sisterNode nodesComponent
                                   componentAuxiliaryNodes bipartition edges1 incidentEdges g')
                     else addToGraph1Row_reassign splitNode sisterNode nodesComponent
                            componentAuxiliaryNodes bipartition edges1 incidentEdges g))))"

text \<open>
  \<^verbatim>\<open>addToGraph1Row\<close>. \<open>scratchVisited\<close> and \<open>scratchParent\<close> are the contents the allocator
  delivers for the two arrays \<^verbatim>\<open>findTreeParents\<close> works on. \<open>splitNode = None\<close> is the
  initial \<open>-1\<close>, which \<^verbatim>\<open>findComponents\<close> cannot iterate over. The incident edges of the
  split node are copied into the array \<^verbatim>\<open>incidentEdges\<close>, which has one entry per node of the
  graph (the sister node included); a split node with more incident edges than that is a
  write past the end of the array.
\<close>

definition addToGraph1Row ::
  "(nat \<Rightarrow> bool) \<Rightarrow> (nat \<Rightarrow> nat option) \<Rightarrow> graphic_state \<Rightarrow> nat \<Rightarrow> nat \<Rightarrow> nat list
     \<Rightarrow> error + graphic_state \<times> bool" where
  "addToGraph1Row scratchVisited scratchParent st baseNumRows baseNumColumns nonzeroColumns =
     (if \<not> (baseNumRows \<ge> 3 \<and> baseNumColumns \<ge> 3 \<and> length nonzeroColumns \<le> baseNumColumns)
      then Inl AssertionViolated
      else
        ebind (findArticulationPoints (stGraph st) (stColumnEdges st) nonzeroColumns) (\<lambda>nodesCandidate.
          if length (filter (\<lambda>v. nodesCandidate ! v \<noteq> 0) (CMRgraphNodes (stGraph st))) > 0 then
            ebind (findTreeParents scratchVisited scratchParent (stGraph st) (stRowEdges st) baseNumRows)
              (\<lambda>nodesParent.
            ebind (addToGraph1Row_paths (stGraph st) (stColumnEdges st) nodesParent baseNumRows
                     nonzeroColumns 0
                     (nodesCandidate,
                      length (filter (\<lambda>v. nodesCandidate ! v \<noteq> 0) (CMRgraphNodes (stGraph st))),
                      None))
              (\<lambda>(nodesCandidate', countCandidates, splitNode').
            if countCandidates = 1 then
              (case splitNode' of
                 None \<Rightarrow> Inl InvalidAccess
               | Some splitNode \<Rightarrow>
                   ebind (findComponents (stGraph st) (stColumnEdges st) splitNode nonzeroColumns)
                     (\<lambda>(nodesComponent, numComponents).
                   if \<not> numComponents \<ge> 2 then Inl AssertionViolated
                   else
                     (case addAuxiliaryNodes numComponents CMRgraphCreateEmpty [] of
                        (auxiliaryGraph0, componentAuxiliaryNodes) \<Rightarrow>
                     ebind (addAuxiliaryEdges (stGraph st) (stColumnEdges st) nodesComponent
                              componentAuxiliaryNodes nonzeroColumns auxiliaryGraph0)
                       (\<lambda>auxiliaryGraph.
                     ebind (findBipartition auxiliaryGraph) (\<lambda>(isBipartite, bipartition).
                     if isBipartite then
                       (case CMRgraphAddNode (stGraph st) of
                          (g1, sisterNode) \<Rightarrow>
                       ebind (setEdges True (stColumnEdges st) nonzeroColumns
                                (replicate (length (graphEdges g1)) False)) (\<lambda>edges1.
                       if length (CMRgraphInc g1 splitNode) > graphNumNodes g1 then Inl InvalidAccess
                       else
                       ebind (addToGraph1Row_reassign splitNode sisterNode nodesComponent
                                componentAuxiliaryNodes bipartition edges1
                                (map fst (CMRgraphInc g1 splitNode)) g1) (\<lambda>g2.
                         (case CMRgraphAddEdge g2 splitNode sisterNode of
                            (g3, newRowEdge) \<Rightarrow>
                              ebind (writeEdge (stRowEdges st) baseNumRows newRowEdge) (\<lambda>rowEdges'.
                                Inr (st\<lparr>stGraph := g3, stRowEdges := rowEdges'\<rparr>, True))))))
                     else Inr (st, False))))))
            else Inr (st, False)))
          else Inr (st, False)))"


section \<open>The initial wheel\<close>

text \<open>The count of the leading entries of a row that lie in the first \<open>wheelSize\<close> columns.\<close>

function countNonzeros :: "CMR_CHRMAT \<Rightarrow> nat \<Rightarrow> nat \<Rightarrow> nat \<Rightarrow> nat \<Rightarrow> nat" where
  "countNonzeros matrix wheelSize e beyond count' =
     (if e < beyond then
        (if entryColumns matrix ! e < wheelSize then countNonzeros matrix wheelSize (e + 1) beyond (count' + 1)
         else count')
      else count')"
  by pat_completeness auto
termination
  by (relation "measure (\<lambda>(matrix, wheelSize, e, beyond, c). beyond - e)") auto

text \<open>The search for the row (on the transposed matrix: the column) with 3 nonzeros; \<open>None\<close> is
  \<^verbatim>\<open>SIZE_MAX\<close>.\<close>

fun findWithThree :: "CMR_CHRMAT \<Rightarrow> nat \<Rightarrow> nat list \<Rightarrow> nat option \<Rightarrow> error + nat option" where
  "findWithThree matrix wheelSize [] rowWithThree = Inr rowWithThree"
| "findWithThree matrix wheelSize (row # rows) rowWithThree =
     (let count' = countNonzeros matrix wheelSize (rowSlice matrix ! row) (rowSlice matrix ! (row + 1)) 0
      in if \<not> (count' = 2 \<or> count' = 3) then Inl AssertionViolated
         else if count' = 3 then
           (if rowWithThree \<noteq> None then Inl AssertionViolated
            else findWithThree matrix wheelSize rows (Some row))
         else findWithThree matrix wheelSize rows rowWithThree)"

text \<open>The choice of the next column of the rim walk in row \<open>lastRow\<close> (and, on the transposed matrix,
  of the next row in column \<open>nextColumn\<close>).\<close>

definition nextOnRim :: "CMR_CHRMAT \<Rightarrow> nat option \<Rightarrow> nat option \<Rightarrow> nat \<Rightarrow> nat \<Rightarrow> nat" where
  "nextOnRim matrix rowWithThree columnWithThree lastRow lastColumn =
     (let e = rowSlice matrix ! lastRow in
      if Some lastRow = rowWithThree then
        (let next0 = entryColumns matrix ! e;
             next1 = (if next0 = lastColumn \<or> Some next0 = columnWithThree
                      then entryColumns matrix ! (e + 1) else next0)
         in if next1 = lastColumn \<or> Some next1 = columnWithThree
            then entryColumns matrix ! (e + 2) else next1)
      else
        (let next0 = entryColumns matrix ! e
         in if next0 = lastColumn then entryColumns matrix ! (e + 1) else next0))"

text \<open>The \<^verbatim>\<open>while (nextRow)\<close> loop. Nothing bounds the number of its rounds, so not
  returning is the value \<open>None\<close>. The state is the graph state with \<^verbatim>\<open>lastRimNode\<close>,
  \<^verbatim>\<open>lastRow\<close> and \<^verbatim>\<open>lastColumn\<close>.\<close>

partial_function (option) createWheel_walk ::
  "CMR_CHRMAT \<Rightarrow> CMR_CHRMAT \<Rightarrow> nat option \<Rightarrow> nat option \<Rightarrow> nat \<Rightarrow> nat \<Rightarrow>
     graphic_state \<times> nat \<times> nat \<times> nat \<Rightarrow> (error + graphic_state) option" where
  "createWheel_walk matrix transpose' rowWithThree columnWithThree centerNode firstRimNode s =
     (case s of (st, lastRimNode, lastRow, lastColumn) \<Rightarrow>
        (let nextColumn = nextOnRim matrix rowWithThree columnWithThree lastRow lastColumn;
             nextRow = nextOnRim transpose' columnWithThree rowWithThree nextColumn lastRow;
             (g1, nextRimNode) =
                (if nextRow = 0 then (stGraph st, firstRimNode) else CMRgraphAddNode (stGraph st));
             (g2, rimEdge) = CMRgraphAddEdge g1 lastRimNode nextRimNode;
             (g3, spokeEdge) = CMRgraphAddEdge g2 centerNode nextRimNode;
             (columnEdge, rowEdge) =
                (if rowWithThree \<noteq> None \<and> Some lastRow \<noteq> rowWithThree \<and> Some nextRow \<noteq> rowWithThree
                 then (spokeEdge, rimEdge) else (rimEdge, spokeEdge))
         in case ebind (writeEdge (stColumnEdges st) lastColumn columnEdge) (\<lambda>columnEdges'.
                 ebind (writeEdge (stRowEdges st) lastRow rowEdge) (\<lambda>rowEdges'.
                   Inr \<lparr>stGraph = g3, stRowEdges = rowEdges', stColumnEdges = columnEdges'\<rparr>)) of
              Inl err \<Rightarrow> Some (Inl err)
            | Inr st' \<Rightarrow>
                if nextRow = 0 then Some (Inr st')
                else createWheel_walk matrix transpose' rowWithThree columnWithThree centerNode firstRimNode
                       (st', nextRimNode, nextRow, nextColumn)))"

declare createWheel_walk.simps [code]

definition createWheel ::
  "graphic_state \<Rightarrow> CMR_CHRMAT \<Rightarrow> CMR_CHRMAT \<Rightarrow> nat \<Rightarrow> (error + graphic_state) option" where
  "createWheel st matrix transpose' wheelSize =
     (if \<not> (wheelSize \<le> numRows matrix \<and> wheelSize \<le> numColumns matrix) then Some (Inl AssertionViolated)
      else
        (case findWithThree matrix wheelSize [0..<wheelSize] None of
           Inl err \<Rightarrow> Some (Inl err)
         | Inr rowWithThree \<Rightarrow>
             (case findWithThree transpose' wheelSize [0..<wheelSize] None of
                Inl err \<Rightarrow> Some (Inl err)
              | Inr columnWithThree \<Rightarrow>
                  if \<not> ((rowWithThree = None \<and> columnWithThree = None)
                         \<or> (rowWithThree \<noteq> None \<and> columnWithThree \<noteq> None))
                  then Some (Inl AssertionViolated)
                  else
                    (let (g1, centerNode) = CMRgraphAddNode (stGraph st);
                         (g2, firstRimNode) = CMRgraphAddNode g1
                     in createWheel_walk matrix transpose' rowWithThree columnWithThree centerNode
                          firstRimNode
                          (st\<lparr>stGraph := g2\<rparr>, firstRimNode, 0,
                           entryColumns matrix ! (rowSlice matrix ! 0))))))"


section \<open>The sequence driver\<close>

text \<open>Subtraction of two \<^verbatim>\<open>size_t\<close> values wraps at 64 bits.\<close>

definition size_sub :: "nat \<Rightarrow> nat \<Rightarrow> nat" where
  "size_sub a b = unat (word_of_nat a - word_of_nat b :: 64 word)"

text \<open>The loop \<^verbatim>\<open>for (e = first; e < beyond; ++e) if (entryColumns[e] >= bound) beyond = e;\<close>
  that cuts a new line down to the entries of the processed prefix.\<close>

function cutBeyond :: "CMR_CHRMAT \<Rightarrow> nat \<Rightarrow> nat \<Rightarrow> nat \<Rightarrow> nat" where
  "cutBeyond matrix bound e beyond =
     (if e < beyond then
        (if entryColumns matrix ! e \<ge> bound then cutBeyond matrix bound (e + 1) e
         else cutBeyond matrix bound (e + 1) beyond)
      else beyond)"
  by pat_completeness auto
termination
  by (relation "measure (\<lambda>(matrix, bound, e, beyond). beyond - e)") auto

definition nonzerosInPrefix :: "CMR_CHRMAT \<Rightarrow> nat \<Rightarrow> nat \<Rightarrow> nat list" where
  "nonzerosInPrefix matrix major bound =
     (let first = rowSlice matrix ! major;
          beyond = cutBeyond matrix bound first (rowSlice matrix ! (major + 1))
      in map (\<lambda>e. entryColumns matrix ! e) [first..<beyond])"

text \<open>What the driver owns across the run: the graph state and the two hash arrays.\<close>

record sequence_state =
  seqGraphic :: graphic_state
  rowHashValues :: "int list"
  columnHashValues :: "int list"

text \<open>
  The extension dispatcher: the body of the driver's loop up to the verdict \<^verbatim>\<open>isGraphic\<close>.
  \<open>numRows0, numColumns0\<close> are the boundaries of step \<open>extension - 1\<close>, \<open>numRows1, numColumns1\<close>
  those of step \<open>extension\<close>.
\<close>

definition extensionDispatch ::
  "(int \<Rightarrow> int) \<Rightarrow> (nat \<Rightarrow> bool) \<Rightarrow> (nat \<Rightarrow> nat option) \<Rightarrow> CMR_CHRMAT \<Rightarrow> CMR_CHRMAT \<Rightarrow> int list \<Rightarrow>
     nat \<Rightarrow> nat \<Rightarrow> nat \<Rightarrow> nat \<Rightarrow> sequence_state \<Rightarrow> error + graphic_state \<times> bool" where
  "extensionDispatch proj scratchVisited scratchParent matrix transpose' hashVector
       numRows0 numColumns0 numRows1 numColumns1 s =
     (let newRows = size_sub numRows1 numRows0;
          newColumns = size_sub numColumns1 numColumns0
      in if newRows = 1 \<and> newColumns = 1 then
           ebind (findParallel proj matrix numRows0 numRows0 numColumns0 (rowHashValues s) hashVector)
             (\<lambda>rowParallel.
           ebind (findParallel proj transpose' numColumns0 numColumns0 numRows0 (columnHashValues s) hashVector)
             (\<lambda>columnParallel.
             addToGraph1Row1Column (seqGraphic s) numRows0 numColumns0 rowParallel
               (CMRelementTranspose columnParallel)))
         else if newRows = 2 \<and> newColumns = 1 then
           ebind (findParallel proj matrix numRows0 numRows0 numColumns0 (rowHashValues s) hashVector)
             (\<lambda>row1Parallel.
           ebind (findParallel proj matrix (numRows0 + 1) numRows0 numColumns0 (rowHashValues s) hashVector)
             (\<lambda>row2Parallel.
             addToGraph2Rows1Column (seqGraphic s) numRows0 numColumns0 row1Parallel row2Parallel))
         else if newRows = 1 \<and> newColumns = 2 then
           ebind (findParallel proj transpose' numColumns0 numColumns0 numRows0 (columnHashValues s) hashVector)
             (\<lambda>column1Parallel.
           ebind (findParallel proj transpose' (numColumns0 + 1) numColumns0 numRows0 (columnHashValues s)
                    hashVector)
             (\<lambda>column2Parallel.
             addToGraph1Row2Columns (seqGraphic s) numRows0 numColumns0
               (CMRelementTranspose column1Parallel) (CMRelementTranspose column2Parallel)))
         else if newRows = 0 \<and> newColumns = 1 then
           addToGraph1Column (seqGraphic s) numRows0 numColumns0
             (nonzerosInPrefix transpose' numColumns0 numRows0)
         else if \<not> (newRows = 1 \<and> newColumns = 0) then Inl AssertionViolated
         else
           addToGraph1Row scratchVisited scratchParent (seqGraphic s) numRows0 numColumns0
             (nonzerosInPrefix matrix numRows0 numColumns0))"

text \<open>The two calls of \<^verbatim>\<open>updateHashValues\<close> that end a successful round of the loop.\<close>

definition extendHashValues ::
  "(int \<Rightarrow> int) \<Rightarrow> CMR_CHRMAT \<Rightarrow> CMR_CHRMAT \<Rightarrow> int list \<Rightarrow> nat \<Rightarrow> nat \<Rightarrow> nat \<Rightarrow> nat \<Rightarrow>
     int list \<times> int list \<Rightarrow> int list \<times> int list" where
  "extendHashValues proj matrix transpose' hashVector numRows0 numColumns0 numRows1 numColumns1 hs =
     (case updateHashValues proj matrix hs hashVector numRows0 numRows1 numColumns0 of
        (rowHashValues1, columnHashValues1) \<Rightarrow>
          (case updateHashValues proj transpose' (columnHashValues1, rowHashValues1) hashVector
                  numColumns0 numColumns1 numRows1 of
             (columnHashValues2, rowHashValues2) \<Rightarrow> (rowHashValues2, columnHashValues2)))"

text \<open>The driver's loop from step \<open>extension\<close> on; it gives the final state and
  \<^verbatim>\<open>*plastGraphicMinor\<close>. \<open>scratch\<close> gives, for each step, what the allocator delivers.\<close>

function extensionLoop ::
  "(int \<Rightarrow> int) \<Rightarrow> (nat \<Rightarrow> (nat \<Rightarrow> bool) \<times> (nat \<Rightarrow> nat option)) \<Rightarrow> CMR_CHRMAT \<Rightarrow> CMR_CHRMAT \<Rightarrow> int list \<Rightarrow>
     nat \<Rightarrow> nat list \<Rightarrow> nat list \<Rightarrow> nat \<Rightarrow> sequence_state \<times> nat \<Rightarrow> error + sequence_state \<times> nat" where
  "extensionLoop proj scratch matrix transpose' hashVector lengthSequence sequenceNumRows sequenceNumColumns
       extension sl =
     (if extension < lengthSequence then
        (if \<not> (0 < extension \<and> extension < length sequenceNumRows \<and> extension < length sequenceNumColumns)
         then Inl InvalidAccess
         else
           (case extensionDispatch proj (fst (scratch extension)) (snd (scratch extension)) matrix transpose'
                   hashVector (sequenceNumRows ! (extension - 1)) (sequenceNumColumns ! (extension - 1))
                   (sequenceNumRows ! extension) (sequenceNumColumns ! extension) (fst sl) of
              Inl err \<Rightarrow> Inl err
            | Inr (st', isGraphic) \<Rightarrow>
                if isGraphic then
                  (case extendHashValues proj matrix transpose' hashVector
                          (sequenceNumRows ! (extension - 1)) (sequenceNumColumns ! (extension - 1))
                          (sequenceNumRows ! extension) (sequenceNumColumns ! extension)
                          (rowHashValues (fst sl), columnHashValues (fst sl)) of
                     (rowHashValues', columnHashValues') \<Rightarrow>
                       extensionLoop proj scratch matrix transpose' hashVector lengthSequence
                         sequenceNumRows sequenceNumColumns (extension + 1)
                         (\<lparr>seqGraphic = st', rowHashValues = rowHashValues',
                           columnHashValues = columnHashValues'\<rparr>, extension))
                else Inr ((fst sl)\<lparr>seqGraphic := st'\<rparr>, snd sl)))
      else Inr sl)"
  by pat_completeness auto
termination
  by (relation "measure (\<lambda>(proj, scratch, matrix, transpose', hashVector, lengthSequence, sequenceNumRows,
        sequenceNumColumns, extension, sl). lengthSequence - extension)") auto

text \<open>The loops that fill \<^verbatim>\<open>edgeElements\<close>.\<close>

fun fillEdgeElements ::
  "(nat \<Rightarrow> CMR_ELEMENT) \<Rightarrow> nat option list \<Rightarrow> nat list \<Rightarrow> CMR_ELEMENT list \<Rightarrow> error + CMR_ELEMENT list" where
  "fillEdgeElements toElement edges [] edgeElements = Inr edgeElements"
| "fillEdgeElements toElement edges (i # indices) edgeElements =
     ebind (readEdge edges i) (\<lambda>e.
       if e < length edgeElements
       then fillEdgeElements toElement edges indices (edgeElements[e := toElement i])
       else Inl InvalidAccess)"

text \<open>What \<^verbatim>\<open>CMRregularSequenceGraphic\<close> hands back: \<^verbatim>\<open>*plastGraphicMinor\<close>, \<^verbatim>\<open>*pgraph\<close>
  (\<open>None\<close> once freed) and \<^verbatim>\<open>*pedgeElements\<close> (\<open>None\<close> when left \<^verbatim>\<open>NULL\<close>).\<close>

record sequence_result =
  lastGraphicMinor :: nat
  pgraph :: "CMR_GRAPH option"
  pedgeElements :: "CMR_ELEMENT list option"

text \<open>
  \<^verbatim>\<open>CMRregularSequenceGraphic\<close>. The arrays \<^verbatim>\<open>rowElements\<close> and \<^verbatim>\<open>columnElements\<close> are only
  asserted to be present and never read, so they are no parameters here. The outer \<open>option\<close>
  is \<open>None\<close> when the rim walk of \<^verbatim>\<open>createWheel\<close> does not return.
\<close>

definition CMRregularSequenceGraphic ::
  "(int \<Rightarrow> int) \<Rightarrow> (nat \<Rightarrow> (nat \<Rightarrow> bool) \<times> (nat \<Rightarrow> nat option)) \<Rightarrow> CMR_CHRMAT \<Rightarrow> CMR_CHRMAT \<Rightarrow>
     nat \<Rightarrow> nat list \<Rightarrow> nat list \<Rightarrow> (error + sequence_result) option" where
  "CMRregularSequenceGraphic proj scratch matrix transpose' lengthSequence sequenceNumRows sequenceNumColumns =
     (let hashVector = createHashVector proj (max (numRows matrix) (numColumns matrix));
          st0 = \<lparr>stGraph = CMRgraphCreateEmpty,
                 stRowEdges = replicate (numRows matrix) None,
                 stColumnEdges = replicate (numColumns matrix) None\<rparr>
      in if \<not> (0 < length sequenceNumRows \<and> 0 < length sequenceNumColumns) then Some (Inl InvalidAccess)
         else if sequenceNumRows ! 0 \<noteq> sequenceNumColumns ! 0 then Some (Inl AssertionViolated)
         else
           (case createWheel st0 matrix transpose' (sequenceNumRows ! 0) of
              None \<Rightarrow> None
            | Some (Inl err) \<Rightarrow> Some (Inl err)
            | Some (Inr st1) \<Rightarrow>
                Some
                  (case updateHashValues proj matrix
                          (replicate (numRows matrix) 0, replicate (numColumns matrix) 0) hashVector
                          0 (sequenceNumRows ! 0) (sequenceNumColumns ! 0) of
                     (rowHashValues1, columnHashValues1) \<Rightarrow>
                       ebind (extensionLoop proj scratch matrix transpose' hashVector lengthSequence
                                sequenceNumRows sequenceNumColumns 1
                                (\<lparr>seqGraphic = st1, rowHashValues = rowHashValues1,
                                  columnHashValues = columnHashValues1\<rparr>, 0))
                         (\<lambda>(s, last).
                            if last = size_sub lengthSequence 1 then
                              ebind (fillEdgeElements CMRrowToElement (stRowEdges (seqGraphic s))
                                       [0..<numRows matrix]
                                       (replicate (numRows matrix + numColumns matrix) NoElement))
                                (\<lambda>edgeElements1.
                              ebind (fillEdgeElements CMRcolumnToElement (stColumnEdges (seqGraphic s))
                                       [0..<numColumns matrix] edgeElements1)
                                (\<lambda>edgeElements2.
                                 Inr \<lparr>lastGraphicMinor = last, pgraph = Some (stGraph (seqGraphic s)),
                                      pedgeElements = Some edgeElements2\<rparr>))
                            else Inr \<lparr>lastGraphicMinor = last, pgraph = None, pedgeElements = None\<rparr>))))"


section \<open>Concrete inputs\<close>

text \<open>
  The wheel on three rim nodes, as \<^verbatim>\<open>createWheel\<close> builds it from the 3-by-3 matrix with the
  rows \<open>{0,1}\<close>, \<open>{0,2}\<close>, \<open>{1,2}\<close>: node 0 is the hub, the row edges 1, 5, 3 are the spokes and
  the column edges 0, 2, 4 the rim. The edge maps have room for one more row and column.
\<close>

definition wheel3 :: graphic_state where
  "wheel3 =
     \<lparr>stGraph = \<lparr>graphNumNodes = 4,
                  graphEdges = [Some (1, 2), Some (0, 2), Some (2, 3), Some (0, 3), Some (3, 1), Some (0, 1)],
                  graphFreeEdges = []\<rparr>,
      stRowEdges = [Some 1, Some 5, Some 3, None],
      stColumnEdges = [Some 0, Some 2, Some 4, None]\<rparr>"

text \<open>The 4-by-4 matrix that extends this wheel by the row \<open>{0,1,2}\<close> and the column
  \<open>{0,1,2,3}\<close>, and its transpose; neither new line has a parallel line in the wheel.\<close>

definition matrixNoParallel :: CMR_CHRMAT where
  "matrixNoParallel =
     \<lparr>numRows = 4, numColumns = 4, rowSlice = [0, 3, 6, 9, 13],
      entryColumns = [0, 1, 3, 0, 2, 3, 1, 2, 3, 0, 1, 2, 3]\<rparr>"

definition wheel3Sequence :: sequence_state where
  "wheel3Sequence = \<lparr>seqGraphic = wheel3, rowHashValues = [4, 10, 12, 0], columnHashValues = [4, 10, 12, 0]\<rparr>"

text \<open>A matrix whose row 0 has the support \<open>{0,1}\<close> and whose row 1 has the support
  \<open>{0,1,2}\<close>.\<close>

definition matrixPrefixRows :: CMR_CHRMAT where
  "matrixPrefixRows =
     \<lparr>numRows = 2, numColumns = 3, rowSlice = [0, 2, 5], entryColumns = [0, 1, 0, 1, 2]\<rparr>"

text \<open>
  The representation matrix of the wheel on three rim nodes over a spanning path: row 0 and
  column 0 have 3 nonzeros, and the rows are \<open>{0,1,2}\<close>, \<open>{0,1}\<close>, \<open>{0,2}\<close>. The matrix is
  symmetric, so it is its own transpose.
\<close>

definition wheelWithThree :: CMR_CHRMAT where
  "wheelWithThree =
     \<lparr>numRows = 3, numColumns = 3, rowSlice = [0, 3, 5, 7], entryColumns = [0, 1, 2, 0, 1, 0, 2]\<rparr>"

section \<open>Basic facts\<close>

lemma ebind_Inl [simp]: "ebind (Inl e) f = Inl e"
  by (simp add: ebind_def)

lemma ebind_Inr [simp]: "ebind (Inr x) f = f x"
  by (simp add: ebind_def)

lemma ebind_eq_Inr: "ebind m f = Inr y \<longleftrightarrow> (\<exists>x. m = Inr x \<and> f x = Inr y)"
  by (cases m) simp_all

lemma ebind_eq_Inl: "ebind m f = Inl e \<longleftrightarrow> m = Inl e \<or> (\<exists>x. m = Inr x \<and> f x = Inl e)"
  by (cases m) simp_all

section \<open>Failure leaves the graph state as it was\<close>

lemma addToGraph1Row1Column_failure:
  "addToGraph1Row1Column st baseNumRows baseNumColumns rowParallel columnParallel = Inr (st', False)
     \<Longrightarrow> st' = st"
  unfolding addToGraph1Row1Column_def
  by (auto simp: ebind_eq_Inr Let_def split_def split: if_splits option.splits)

lemma addToGraph2Rows1Column_failure:
  "addToGraph2Rows1Column st baseNumRows baseNumColumns row1Parallel row2Parallel = Inr (st', False)
     \<Longrightarrow> st' = st"
  unfolding addToGraph2Rows1Column_def
  by (auto simp: ebind_eq_Inr Let_def split_def split: if_splits option.splits)

lemma addToGraph1Row2Columns_failure:
  "addToGraph1Row2Columns st baseNumRows baseNumColumns column1Parallel column2Parallel = Inr (st', False)
     \<Longrightarrow> st' = st"
  unfolding addToGraph1Row2Columns_def
  by (auto simp: ebind_eq_Inr Let_def split_def split: if_splits option.splits)

lemma addToGraph1Column_failure:
  "addToGraph1Column st baseNumRows baseNumColumns nonzeroRows = Inr (st', False) \<Longrightarrow> st' = st"
  unfolding addToGraph1Column_def
  by (auto simp: ebind_eq_Inr Let_def split_def split: if_splits option.splits)

lemma addToGraph1Row_failure:
  "addToGraph1Row scratchVisited scratchParent st baseNumRows baseNumColumns nonzeroColumns = Inr (st', False)
     \<Longrightarrow> st' = st"
  unfolding addToGraph1Row_def
  by (auto simp: ebind_eq_Inr Let_def split_def split: if_splits option.splits)

text \<open>
  Claim C3. Whenever one of the five extension handlers reports failure (the verdict
  \<open>False\<close>), the graph state it hands back (the witness graph and both edge maps) is the
  state it was called with: no node or edge is added, deleted or rewired on a failure path.
\<close>

theorem handlers_failure_state_unchanged:
  "(addToGraph1Row1Column st baseNumRows baseNumColumns rowParallel columnParallel = Inr (st1, False)
      \<longrightarrow> st1 = st)
   \<and> (addToGraph2Rows1Column st baseNumRows baseNumColumns rowParallel columnParallel = Inr (st2, False)
      \<longrightarrow> st2 = st)
   \<and> (addToGraph1Row2Columns st baseNumRows baseNumColumns rowParallel columnParallel = Inr (st3, False)
      \<longrightarrow> st3 = st)
   \<and> (addToGraph1Column st baseNumRows baseNumColumns nonzeros = Inr (st4, False) \<longrightarrow> st4 = st)
   \<and> (addToGraph1Row scratchVisited scratchParent st baseNumRows baseNumColumns nonzeros = Inr (st5, False)
      \<longrightarrow> st5 = st)"
  by (intro conjI impI)
    (erule addToGraph1Row1Column_failure addToGraph2Rows1Column_failure addToGraph1Row2Columns_failure
       addToGraph1Column_failure addToGraph1Row_failure)+

text \<open>On the wheel, each handler fails at these inputs: the rim edge 0 and the spoke 3 are
  not adjacent, the three spokes have three leaves, and the three rim edges give a triangle
  as auxiliary graph.\<close>

theorem handlers_failure_state_unchanged_witness:
  "addToGraph1Row1Column wheel3 3 3 (ColumnElement 0) (RowElement 2) = Inr (wheel3, False)
   \<and> addToGraph2Rows1Column wheel3 3 3 (ColumnElement 0) (RowElement 2) = Inr (wheel3, False)
   \<and> addToGraph1Row2Columns wheel3 3 3 (ColumnElement 0) (RowElement 2) = Inr (wheel3, False)
   \<and> addToGraph1Column wheel3 3 3 [0, 1, 2] = Inr (wheel3, False)
   \<and> addToGraph1Row (\<lambda>v. False) (\<lambda>v. None) wheel3 3 3 [0, 1, 2] = Inr (wheel3, False)"
proof -
  have 1: "addToGraph1Row1Column wheel3 3 3 (ColumnElement 0) (RowElement 2) = Inr (wheel3, False)"
    by code_simp
  have 2: "addToGraph2Rows1Column wheel3 3 3 (ColumnElement 0) (RowElement 2) = Inr (wheel3, False)"
    by code_simp
  have 3: "addToGraph1Row2Columns wheel3 3 3 (ColumnElement 0) (RowElement 2) = Inr (wheel3, False)"
    by code_simp
  have 4: "addToGraph1Column wheel3 3 3 [0, 1, 2] = Inr (wheel3, False)"
    by code_simp
  have 5: "addToGraph1Row (\<lambda>v. False) (\<lambda>v. None) wheel3 3 3 [0, 1, 2] = Inr (wheel3, False)"
    by code_simp
  from 1 2 3 4 5
    handlers_failure_state_unchanged [of wheel3 3 3 "ColumnElement 0" "RowElement 2" wheel3 wheel3 wheel3
      "[0, 1, 2]" wheel3 "\<lambda>v. False" "\<lambda>v. None" wheel3]
  show ?thesis by simp
qed


section \<open>The extension dispatcher\<close>

lemma size_sub_nowrap: "b \<le> a \<Longrightarrow> a < 2 ^ 64 \<Longrightarrow> size_sub a b = a - b"
proof -
  assume le: "b \<le> a" and lt: "a < 2 ^ 64"
  have "(word_of_nat a - word_of_nat b :: 64 word) = word_of_nat (a - b)"
    using le by (simp add: of_nat_diff)
  moreover have "a - b < 2 ^ 64" using lt by simp
  ultimately show ?thesis
    by (simp add: size_sub_def unat_of_nat)
qed

text \<open>
  Claim C9, as amended. For boundaries that do not decrease, the dispatcher invokes the
  handler of the step's shape for exactly the five shapes (1,1), (2,1), (1,2), (0,1) and
  (1,0), and its outcome is that handler's outcome; for every other shape, in particular
  (2,0), (0,2) and (2,2), it violates the assertion \<^verbatim>\<open>newRows == 1 && newColumns == 0\<close>
  and gives no verdict.
\<close>

theorem extensionDispatch_shapes:
  assumes "numRows0 \<le> numRows1" and "numRows1 < 2 ^ 64"
    and "numColumns0 \<le> numColumns1" and "numColumns1 < 2 ^ 64"
  shows "extensionDispatch proj scratchVisited scratchParent matrix transpose' hashVector
           numRows0 numColumns0 numRows1 numColumns1 s =
     (if numRows1 = numRows0 + 1 \<and> numColumns1 = numColumns0 + 1 then
        ebind (findParallel proj matrix numRows0 numRows0 numColumns0 (rowHashValues s) hashVector)
          (\<lambda>rowParallel.
        ebind (findParallel proj transpose' numColumns0 numColumns0 numRows0 (columnHashValues s) hashVector)
          (\<lambda>columnParallel.
          addToGraph1Row1Column (seqGraphic s) numRows0 numColumns0 rowParallel
            (CMRelementTranspose columnParallel)))
      else if numRows1 = numRows0 + 2 \<and> numColumns1 = numColumns0 + 1 then
        ebind (findParallel proj matrix numRows0 numRows0 numColumns0 (rowHashValues s) hashVector)
          (\<lambda>row1Parallel.
        ebind (findParallel proj matrix (numRows0 + 1) numRows0 numColumns0 (rowHashValues s) hashVector)
          (\<lambda>row2Parallel.
          addToGraph2Rows1Column (seqGraphic s) numRows0 numColumns0 row1Parallel row2Parallel))
      else if numRows1 = numRows0 + 1 \<and> numColumns1 = numColumns0 + 2 then
        ebind (findParallel proj transpose' numColumns0 numColumns0 numRows0 (columnHashValues s) hashVector)
          (\<lambda>column1Parallel.
        ebind (findParallel proj transpose' (numColumns0 + 1) numColumns0 numRows0 (columnHashValues s)
                 hashVector)
          (\<lambda>column2Parallel.
          addToGraph1Row2Columns (seqGraphic s) numRows0 numColumns0
            (CMRelementTranspose column1Parallel) (CMRelementTranspose column2Parallel)))
      else if numRows1 = numRows0 \<and> numColumns1 = numColumns0 + 1 then
        addToGraph1Column (seqGraphic s) numRows0 numColumns0 (nonzerosInPrefix transpose' numColumns0 numRows0)
      else if numRows1 = numRows0 + 1 \<and> numColumns1 = numColumns0 then
        addToGraph1Row scratchVisited scratchParent (seqGraphic s) numRows0 numColumns0
          (nonzerosInPrefix matrix numRows0 numColumns0)
      else Inl AssertionViolated)"
proof -
  have r: "size_sub numRows1 numRows0 = numRows1 - numRows0"
    using assms by (simp add: size_sub_nowrap)
  have c: "size_sub numColumns1 numColumns0 = numColumns1 - numColumns0"
    using assms by (simp add: size_sub_nowrap)
  have r': "numRows1 - numRows0 = k \<longleftrightarrow> numRows1 = numRows0 + k" for k
    using assms(1) by arith
  have c': "numColumns1 - numColumns0 = k \<longleftrightarrow> numColumns1 = numColumns0 + k" for k
    using assms(3) by arith
  show ?thesis
    unfolding extensionDispatch_def Let_def r c r' c'
    by simp
qed

theorem extensionDispatch_shapes_witness:
  "(3 :: nat) \<le> 3 \<and> (3 :: nat) < 2 ^ 64 \<and> (3 :: nat) \<le> 4 \<and> (4 :: nat) < 2 ^ 64
   \<and> extensionDispatch (\<lambda>x. x) (\<lambda>v. False) (\<lambda>v. None) matrixNoParallel matrixNoParallel [1, 3, 9, 27]
        3 3 3 4 wheel3Sequence
      = addToGraph1Column wheel3 3 3 (nonzerosInPrefix matrixNoParallel 3 3)"
  using extensionDispatch_shapes [of 3 3 3 4 "\<lambda>x. x" "\<lambda>v. False" "\<lambda>v. None" matrixNoParallel
      matrixNoParallel "[1, 3, 9, 27]" wheel3Sequence]
  by (simp add: wheel3Sequence_def)

text \<open>The claim as it is written fails: a step that adds two rows and no column ends in the
  violated assertion.\<close>

theorem extensionDispatch_two_rows_counterexample:
  "extensionDispatch (\<lambda>x. x) (\<lambda>v. False) (\<lambda>v. None) matrixNoParallel matrixNoParallel [1, 3, 9, 27]
     3 3 5 3 wheel3Sequence = Inl AssertionViolated"
  by code_simp

section \<open>A new line without a parallel line\<close>

lemma findParallel_error: "findParallel proj matrix row numRows' numColumns' hashValues hashVector = Inl err
    \<Longrightarrow> err = AssertionViolated"
  by (auto simp: findParallel_def Let_def split_def split: if_splits)

lemma ebind_findParallel_invalid:
  assumes "\<And>x. \<not> CMRelementIsValid x \<Longrightarrow> f x = Inl AssertionViolated"
    and "\<And>x err. f x = Inl err \<Longrightarrow> err = AssertionViolated"
    and "findParallel proj matrix row numRows' numColumns' hashValues hashVector = Inr NoElement"
  shows "ebind (findParallel proj matrix row numRows' numColumns' hashValues hashVector) f = Inl AssertionViolated"
  using assms by (simp add: CMRelementIsValid_def)

lemma small_handlers_invalid:
  assumes "\<not> CMRelementIsValid p \<or> \<not> CMRelementIsValid q"
  shows "addToGraph1Row1Column st baseNumRows baseNumColumns p q = Inl AssertionViolated"
    and "addToGraph2Rows1Column st baseNumRows baseNumColumns p q = Inl AssertionViolated"
    and "addToGraph1Row2Columns st baseNumRows baseNumColumns p q = Inl AssertionViolated"
  using assms
  by (auto simp: addToGraph1Row1Column_def addToGraph2Rows1Column_def addToGraph1Row2Columns_def)

lemma transpose_valid [simp]: "CMRelementIsValid (CMRelementTranspose x) = CMRelementIsValid x"
  by (cases x) (simp_all add: CMRelementIsValid_def)

lemma two_parallels_invalid:
  assumes h: "\<And>p q. \<not> CMRelementIsValid p \<or> \<not> CMRelementIsValid q \<Longrightarrow> f p q = Inl AssertionViolated"
    and a: "m1 = Inr NoElement \<or> m2 = Inr NoElement"
    and e1: "\<And>err. m1 = Inl err \<Longrightarrow> err = AssertionViolated"
    and e2: "\<And>err. m2 = Inl err \<Longrightarrow> err = AssertionViolated"
  shows "ebind m1 (\<lambda>p. ebind m2 (\<lambda>q. f p q)) = Inl AssertionViolated"
proof (cases m1)
  case (Inl err)
  then show ?thesis using e1 by simp
next
  case p: (Inr p)
  show ?thesis
  proof (cases m2)
    case (Inl err)
    then show ?thesis using e2 p by simp
  next
    case q: (Inr q)
    from a p q have "\<not> CMRelementIsValid p \<or> \<not> CMRelementIsValid q"
      by (auto simp: CMRelementIsValid_def)
    then show ?thesis using p q h by simp
  qed
qed

text \<open>
  Claim C10. The handlers of the shapes (1,1), (2,1) and (1,2) answer an invalid parallel
  element with the violated assertion, and so does the dispatcher of these shapes whenever
  one of its calls of \<^verbatim>\<open>findParallel\<close> returns "none": the step never ends in the verdict
  non-graphic.
\<close>

theorem missing_parallel_violates_assertion:
  "(\<not> CMRelementIsValid p \<or> \<not> CMRelementIsValid q \<longrightarrow>
      addToGraph1Row1Column st baseNumRows baseNumColumns p q = Inl AssertionViolated
      \<and> addToGraph2Rows1Column st baseNumRows baseNumColumns p q = Inl AssertionViolated
      \<and> addToGraph1Row2Columns st baseNumRows baseNumColumns p q = Inl AssertionViolated)
   \<and> (size_sub numRows1 numRows0 = 1 \<and> size_sub numColumns1 numColumns0 = 1
        \<and> (findParallel proj matrix numRows0 numRows0 numColumns0 (rowHashValues s) hashVector = Inr NoElement
           \<or> findParallel proj transpose' numColumns0 numColumns0 numRows0 (columnHashValues s) hashVector
               = Inr NoElement) \<longrightarrow>
      extensionDispatch proj scratchVisited scratchParent matrix transpose' hashVector
        numRows0 numColumns0 numRows1 numColumns1 s = Inl AssertionViolated)
   \<and> (size_sub numRows1 numRows0 = 2 \<and> size_sub numColumns1 numColumns0 = 1
        \<and> (findParallel proj matrix numRows0 numRows0 numColumns0 (rowHashValues s) hashVector = Inr NoElement
           \<or> findParallel proj matrix (numRows0 + 1) numRows0 numColumns0 (rowHashValues s) hashVector
               = Inr NoElement) \<longrightarrow>
      extensionDispatch proj scratchVisited scratchParent matrix transpose' hashVector
        numRows0 numColumns0 numRows1 numColumns1 s = Inl AssertionViolated)
   \<and> (size_sub numRows1 numRows0 = 1 \<and> size_sub numColumns1 numColumns0 = 2
        \<and> (findParallel proj transpose' numColumns0 numColumns0 numRows0 (columnHashValues s) hashVector
               = Inr NoElement
           \<or> findParallel proj transpose' (numColumns0 + 1) numColumns0 numRows0 (columnHashValues s) hashVector
               = Inr NoElement) \<longrightarrow>
      extensionDispatch proj scratchVisited scratchParent matrix transpose' hashVector
        numRows0 numColumns0 numRows1 numColumns1 s = Inl AssertionViolated)"
proof (intro conjI impI)
  assume "\<not> CMRelementIsValid p \<or> \<not> CMRelementIsValid q"
  then show "addToGraph1Row1Column st baseNumRows baseNumColumns p q = Inl AssertionViolated"
    and "addToGraph2Rows1Column st baseNumRows baseNumColumns p q = Inl AssertionViolated"
    and "addToGraph1Row2Columns st baseNumRows baseNumColumns p q = Inl AssertionViolated"
    by (rule small_handlers_invalid)+
next
  assume a: "size_sub numRows1 numRows0 = 1 \<and> size_sub numColumns1 numColumns0 = 1
        \<and> (findParallel proj matrix numRows0 numRows0 numColumns0 (rowHashValues s) hashVector = Inr NoElement
           \<or> findParallel proj transpose' numColumns0 numColumns0 numRows0 (columnHashValues s) hashVector
               = Inr NoElement)"
  have "ebind (findParallel proj matrix numRows0 numRows0 numColumns0 (rowHashValues s) hashVector)
          (\<lambda>p. ebind (findParallel proj transpose' numColumns0 numColumns0 numRows0 (columnHashValues s) hashVector)
          (\<lambda>q. addToGraph1Row1Column (seqGraphic s) numRows0 numColumns0 p (CMRelementTranspose q)))
        = Inl AssertionViolated"
    by (rule two_parallels_invalid) (use a in \<open>auto dest: findParallel_error intro: small_handlers_invalid\<close>)
  then show "extensionDispatch proj scratchVisited scratchParent matrix transpose' hashVector
        numRows0 numColumns0 numRows1 numColumns1 s = Inl AssertionViolated"
    using a by (simp add: extensionDispatch_def)
next
  assume a: "size_sub numRows1 numRows0 = 2 \<and> size_sub numColumns1 numColumns0 = 1
        \<and> (findParallel proj matrix numRows0 numRows0 numColumns0 (rowHashValues s) hashVector = Inr NoElement
           \<or> findParallel proj matrix (numRows0 + 1) numRows0 numColumns0 (rowHashValues s) hashVector
               = Inr NoElement)"
  have "ebind (findParallel proj matrix numRows0 numRows0 numColumns0 (rowHashValues s) hashVector)
          (\<lambda>p. ebind (findParallel proj matrix (numRows0 + 1) numRows0 numColumns0 (rowHashValues s) hashVector)
          (\<lambda>q. addToGraph2Rows1Column (seqGraphic s) numRows0 numColumns0 p q))
        = Inl AssertionViolated"
    by (rule two_parallels_invalid) (use a in \<open>auto dest: findParallel_error intro: small_handlers_invalid\<close>)
  then show "extensionDispatch proj scratchVisited scratchParent matrix transpose' hashVector
        numRows0 numColumns0 numRows1 numColumns1 s = Inl AssertionViolated"
    using a by (simp add: extensionDispatch_def)
next
  assume a: "size_sub numRows1 numRows0 = 1 \<and> size_sub numColumns1 numColumns0 = 2
        \<and> (findParallel proj transpose' numColumns0 numColumns0 numRows0 (columnHashValues s) hashVector
               = Inr NoElement
           \<or> findParallel proj transpose' (numColumns0 + 1) numColumns0 numRows0 (columnHashValues s) hashVector
               = Inr NoElement)"
  have "ebind (findParallel proj transpose' numColumns0 numColumns0 numRows0 (columnHashValues s) hashVector)
          (\<lambda>p. ebind (findParallel proj transpose' (numColumns0 + 1) numColumns0 numRows0 (columnHashValues s) hashVector)
          (\<lambda>q. addToGraph1Row2Columns (seqGraphic s) numRows0 numColumns0 (CMRelementTranspose p) (CMRelementTranspose q)))
        = Inl AssertionViolated"
    by (rule two_parallels_invalid) (use a in \<open>auto dest: findParallel_error intro: small_handlers_invalid\<close>)
  then show "extensionDispatch proj scratchVisited scratchParent matrix transpose' hashVector
        numRows0 numColumns0 numRows1 numColumns1 s = Inl AssertionViolated"
    using a by (simp add: extensionDispatch_def)
qed

theorem missing_parallel_violates_assertion_witness:
  "size_sub 4 3 = 1
   \<and> findParallel (\<lambda>x. x) matrixNoParallel 3 3 3 (rowHashValues wheel3Sequence) [1, 3, 9, 27] = Inr NoElement
   \<and> addToGraph1Row1Column wheel3 3 3 NoElement NoElement = Inl AssertionViolated
   \<and> extensionDispatch (\<lambda>x. x) (\<lambda>v. False) (\<lambda>v. None) matrixNoParallel matrixNoParallel [1, 3, 9, 27]
        3 3 4 4 wheel3Sequence = Inl AssertionViolated"
proof -
  have 1: "size_sub 4 3 = 1"
    by code_simp
  have 2: "findParallel (\<lambda>x. x) matrixNoParallel 3 3 3 (rowHashValues wheel3Sequence) [1, 3, 9, 27]
             = Inr NoElement"
    by code_simp
  have 3: "\<not> CMRelementIsValid NoElement"
    by (simp add: CMRelementIsValid_def)
  from 1 2 3
    missing_parallel_violates_assertion [of NoElement NoElement wheel3 3 3 4 3 4 3 "\<lambda>x. x"
      matrixNoParallel wheel3Sequence "[1, 3, 9, 27]" matrixNoParallel "\<lambda>v. False" "\<lambda>v. None"]
  show ?thesis by simp
qed

section \<open>The exact comparison of \<^verbatim>\<open>findParallel\<close>\<close>

text \<open>
  Claim C7 (the code departs from it). The \<^verbatim>\<open>while\<close> loop that compares the queried row
  with a candidate of equal hash value ends as soon as one of the two entry lists is
  exhausted, and leaves \<^verbatim>\<open>isParallel\<close> true. Row 1 of \<open>matrixPrefixRows\<close> has three nonzeros in
  the prefix of three columns, row 0 only the first two of them; whenever the accumulator
  of row 0 equals the hash value computed for row 1 (a collision), \<^verbatim>\<open>findParallel\<close> returns
  row 0 although the two restricted supports differ.
\<close>

theorem findParallel_accepts_proper_prefix:
  "findParallel proj matrixPrefixRows 1 1 3
     [proj (proj (proj (hashVector ! 0) + hashVector ! 1) + hashVector ! 2)] hashVector
   = Inr (RowElement 0)"
  by (simp add: findParallel_def matrixPrefixRows_def findParallel_hash.simps findParallel_rows.simps
      findParallel_compare.simps CMRrowToElement_def Let_def)

section \<open>The wheel with a row and a column of 3 nonzeros\<close>

text \<open>
  Claim C8 (the code departs from it). The rim walk starts in row 0 with \<^verbatim>\<open>lastColumn\<close> set
  to the first entry of that row. In \<open>wheelWithThree\<close> row 0 is the row with 3 nonzeros and
  its first entry is the column with 3 nonzeros: the walk returns to row 0 after three
  rounds and the graph has 4 nodes and 6 edges, but column 0 was given an edge twice and
  column 2 none.
\<close>

theorem createWheel_leaves_column_without_edge:
  "createWheel \<lparr>stGraph = CMRgraphCreateEmpty, stRowEdges = [None, None, None],
                 stColumnEdges = [None, None, None]\<rparr> wheelWithThree wheelWithThree 3
   = Some (Inr \<lparr>stGraph = \<lparr>graphNumNodes = 4,
                             graphEdges = [Some (1, 2), Some (0, 2), Some (2, 3), Some (0, 3),
                                           Some (3, 1), Some (0, 1)],
                             graphFreeEdges = []\<rparr>,
                 stRowEdges = [Some 1, Some 2, Some 5],
                 stColumnEdges = [Some 4, Some 3, None]\<rparr>)"
  by code_simp


section \<open>Soundness of the hash filter\<close>

text \<open>The entries of a row, in the order of the array, and those the code reads for a
  prefix of \<open>bound\<close> columns: it stops at the first entry outside the prefix.\<close>

definition rowEntries :: "CMR_CHRMAT \<Rightarrow> nat \<Rightarrow> nat list" where
  "rowEntries matrix row = map (\<lambda>e. entryColumns matrix ! e) [rowSlice matrix ! row..<rowSlice matrix ! (row + 1)]"

definition restrictedSupport :: "CMR_CHRMAT \<Rightarrow> nat \<Rightarrow> nat \<Rightarrow> nat list" where
  "restrictedSupport matrix row bound = takeWhile (\<lambda>c. c < bound) (rowEntries matrix row)"

text \<open>The value a hash accumulator takes when the weights of \<open>minors\<close> are added in this
  order, starting from \<open>h0\<close>.\<close>

definition hashOf :: "(int \<Rightarrow> int) \<Rightarrow> int list \<Rightarrow> int \<Rightarrow> nat list \<Rightarrow> int" where
  "hashOf proj hashVector h0 minors = foldl (\<lambda>h c. proj (h + hashVector ! c)) h0 minors"

text \<open>
  The matrix facility is external: it delivers, per row, the nonzero columns in increasing
  order, and the transpose lists the same nonzeros. \<open>rowsListed\<close> says both for the rows of
  one matrix: each row lists exactly the columns whose transposed row names it, in
  increasing order.
\<close>

definition rowsListed :: "CMR_CHRMAT \<Rightarrow> CMR_CHRMAT \<Rightarrow> bool" where
  "rowsListed matrix transpose' \<longleftrightarrow>
     (\<forall>row < numRows matrix.
        rowEntries matrix row = filter (\<lambda>c. row \<in> set (rowEntries transpose' c)) [0..<numColumns matrix])"

definition transposed :: "CMR_CHRMAT \<Rightarrow> CMR_CHRMAT \<Rightarrow> bool" where
  "transposed matrix transpose' \<longleftrightarrow>
     numRows transpose' = numColumns matrix \<and> numColumns transpose' = numRows matrix
     \<and> rowsListed matrix transpose' \<and> rowsListed transpose' matrix"

declare findParallel_hash.simps [simp del] findParallel_compare.simps [simp del]
  findParallel_rows.simps [simp del] updateHashValues_entries.simps [simp del]
  updateHashValues.simps [simp del]

lemma upt_entries: "e < beyond \<Longrightarrow>
   map (\<lambda>e. entryColumns matrix ! e) [e..<beyond] = entryColumns matrix ! e # map (\<lambda>e. entryColumns matrix ! e) [Suc e..<beyond]"
  by (simp add: upt_conv_Cons)

lemma findParallel_hash_fold:
  "findParallel_hash proj matrix bound hashVector e beyond h n =
     (hashOf proj hashVector h (takeWhile (\<lambda>c. c < bound) (map (\<lambda>e. entryColumns matrix ! e) [e..<beyond])),
      n + length (takeWhile (\<lambda>c. c < bound) (map (\<lambda>e. entryColumns matrix ! e) [e..<beyond])))"
proof (induction proj matrix bound hashVector e beyond h n rule: findParallel_hash.induct)
  case (1 proj matrix bound hashVector e beyond h n)
  show ?case
  proof (cases "e < beyond")
    case False
    then show ?thesis by (subst findParallel_hash.simps) (simp add: hashOf_def)
  next
    case True
    show ?thesis
    proof (cases "entryColumns matrix ! e < bound")
      case False
      with True show ?thesis
        by (subst findParallel_hash.simps) (simp add: upt_entries hashOf_def)
    next
      case lt: True
      with True 1 show ?thesis
        by (subst findParallel_hash.simps) (simp add: upt_entries hashOf_def)
    qed
  qed
qed

lemma updateHashValues_entries_fold:
  assumes "major < length majorHashValues"
  shows "updateHashValues_entries proj matrix hashVector minorSize major e beyond (majorHashValues, minorHashValues) =
     (let minors = takeWhile (\<lambda>c. c < minorSize) (map (\<lambda>e. entryColumns matrix ! e) [e..<beyond])
      in (majorHashValues[major := hashOf proj hashVector (majorHashValues ! major) minors],
          foldl (\<lambda>hs c. hs[c := proj (hs ! c + hashVector ! major)]) minorHashValues minors))"
  using assms
proof (induction proj matrix hashVector minorSize major e beyond "(majorHashValues, minorHashValues)"
    arbitrary: majorHashValues minorHashValues rule: updateHashValues_entries.induct)
  case (1 proj matrix hashVector minorSize major e beyond majorHashValues minorHashValues)
  show ?case
  proof (cases "e < beyond")
    case False
    then show ?thesis by (subst updateHashValues_entries.simps) (simp add: hashOf_def)
  next
    case True
    show ?thesis
    proof (cases "entryColumns matrix ! e < minorSize")
      case False
      with True show ?thesis
        by (subst updateHashValues_entries.simps) (simp add: upt_entries hashOf_def)
    next
      case lt: True
      have len: "major < length (majorHashValues[major := proj (majorHashValues ! major + hashVector ! (entryColumns matrix ! e))])"
        using "1.prems" by simp
      show ?thesis
        using True lt "1.prems" "1.hyps"[OF True refl lt len]
        by (subst updateHashValues_entries.simps) (simp add: upt_entries hashOf_def Let_def)
    qed
  qed
qed

lemma fold_minor_length [simp]:
  "length (foldl (\<lambda>hs c. hs[c := f hs c]) hs minors) = length hs"
  by (induction minors arbitrary: hs) simp_all

lemma fold_minor_nth:
  assumes "distinct minors" and "c < length hs"
  shows "foldl (\<lambda>hs c. hs[c := proj (hs ! c + w)]) hs minors ! c
           = (if c \<in> set minors then proj (hs ! c + w) else hs ! c)"
  using assms
proof (induction minors arbitrary: hs)
  case Nil
  then show ?case by simp
next
  case (Cons m minors)
  then show ?case
    by (cases "m < length hs") (auto simp: nth_list_update)
qed


lemma updateHashValues_entries_row:
  assumes "major < length majorHashValues"
  shows "updateHashValues_entries proj matrix hashVector minorSize major
           (rowSlice matrix ! major) (rowSlice matrix ! (major + 1)) (majorHashValues, minorHashValues) =
     (majorHashValues[major := hashOf proj hashVector (majorHashValues ! major)
                                  (restrictedSupport matrix major minorSize)],
      foldl (\<lambda>hs c. hs[c := proj (hs ! c + hashVector ! major)]) minorHashValues
        (restrictedSupport matrix major minorSize))"
  using updateHashValues_entries_fold [OF assms]
  by (simp add: restrictedSupport_def rowEntries_def Let_def)

lemma updateHashValues_nth:
  assumes "majorBeyond \<le> length majorHashValues"
    and "\<forall>r. majorFirst \<le> r \<and> r < majorBeyond \<longrightarrow> distinct (restrictedSupport matrix r minorSize)"
  shows "case updateHashValues proj matrix (majorHashValues, minorHashValues) hashVector
                majorFirst majorBeyond minorSize of
           (majorHashValues', minorHashValues') \<Rightarrow>
             length majorHashValues' = length majorHashValues
             \<and> length minorHashValues' = length minorHashValues
             \<and> (\<forall>r < length majorHashValues.
                   majorHashValues' ! r =
                     (if majorFirst \<le> r \<and> r < majorBeyond
                      then hashOf proj hashVector (majorHashValues ! r) (restrictedSupport matrix r minorSize)
                      else majorHashValues ! r))
             \<and> (\<forall>c < length minorHashValues.
                   minorHashValues' ! c =
                     hashOf proj hashVector (minorHashValues ! c)
                       (filter (\<lambda>r. c \<in> set (restrictedSupport matrix r minorSize))
                          [majorFirst..<majorBeyond]))"
  using assms
proof (induction proj matrix "(majorHashValues, minorHashValues)" hashVector majorFirst majorBeyond minorSize
    arbitrary: majorHashValues minorHashValues rule: updateHashValues.induct)
  case (1 proj matrix hashVector majorFirst majorBeyond minorSize majorHashValues minorHashValues)
  show ?case
  proof (cases "majorFirst < majorBeyond")
    case False
    then show ?thesis
      by (subst updateHashValues.simps) (simp add: hashOf_def)
  next
    case True
    define maj1 where "maj1 = majorHashValues[majorFirst := hashOf proj hashVector (majorHashValues ! majorFirst)
                                  (restrictedSupport matrix majorFirst minorSize)]"
    define min1 where "min1 = foldl (\<lambda>hs c. hs[c := proj (hs ! c + hashVector ! majorFirst)]) minorHashValues
        (restrictedSupport matrix majorFirst minorSize)"
    have len: "majorFirst < length majorHashValues"
      using True "1.prems"(1) by simp
    have entries: "updateHashValues_entries proj matrix hashVector minorSize majorFirst
           (rowSlice matrix ! majorFirst) (rowSlice matrix ! (majorFirst + 1)) (majorHashValues, minorHashValues)
         = (maj1, min1)"
      using updateHashValues_entries_row [OF len] by (simp add: maj1_def min1_def)
    have dist: "distinct (restrictedSupport matrix majorFirst minorSize)"
      using True "1.prems"(2) by simp
    have min1_nth: "min1 ! c = (if c \<in> set (restrictedSupport matrix majorFirst minorSize)
                               then proj (minorHashValues ! c + hashVector ! majorFirst)
                               else minorHashValues ! c)" if "c < length minorHashValues" for c
      unfolding min1_def using fold_minor_nth [OF dist that] .
    have min1_len: "length min1 = length minorHashValues"
      by (simp add: min1_def)
    have maj1_len: "length maj1 = length majorHashValues"
      by (simp add: maj1_def)
    obtain maj2 min2 where res: "updateHashValues proj matrix (maj1, min1) hashVector (Suc majorFirst) majorBeyond minorSize = (maj2, min2)"
      by (cases "updateHashValues proj matrix (maj1, min1) hashVector (Suc majorFirst) majorBeyond minorSize")
    have ih: "length maj2 = length maj1
             \<and> length min2 = length min1
             \<and> (\<forall>r < length maj1.
                   maj2 ! r =
                     (if Suc majorFirst \<le> r \<and> r < majorBeyond
                      then hashOf proj hashVector (maj1 ! r) (restrictedSupport matrix r minorSize)
                      else maj1 ! r))
             \<and> (\<forall>c < length min1.
                   min2 ! c =
                     hashOf proj hashVector (min1 ! c)
                       (filter (\<lambda>r. c \<in> set (restrictedSupport matrix r minorSize))
                          [Suc majorFirst..<majorBeyond]))"
      using "1.hyps"[OF True entries] "1.prems" maj1_len by (simp add: res)
    have step: "updateHashValues proj matrix (majorHashValues, minorHashValues) hashVector majorFirst majorBeyond minorSize
          = updateHashValues proj matrix (maj1, min1) hashVector (Suc majorFirst) majorBeyond minorSize"
      using True entries by (subst updateHashValues.simps) simp
    have upt: "[majorFirst..<majorBeyond] = majorFirst # [Suc majorFirst..<majorBeyond]"
      using True by (simp add: upt_conv_Cons)
    have maj: "maj2 ! r = (if majorFirst \<le> r \<and> r < majorBeyond
                      then hashOf proj hashVector (majorHashValues ! r) (restrictedSupport matrix r minorSize)
                      else majorHashValues ! r)" if "r < length majorHashValues" for r
      using ih that len True by (auto simp: maj1_len maj1_def nth_list_update)
    have mn: "min2 ! c = hashOf proj hashVector (minorHashValues ! c)
                       (filter (\<lambda>r. c \<in> set (restrictedSupport matrix r minorSize))
                          [majorFirst..<majorBeyond])" if "c < length minorHashValues" for c
      using ih that min1_nth[OF that] by (simp add: min1_len upt hashOf_def)
    show ?thesis
      unfolding step res using ih maj mn by (simp add: maj1_len min1_len)
  qed
qed


text \<open>The invariant of the two hash arrays for the boundary \<open>(numRows', numColumns')\<close>: the
  accumulator of a processed line is the hash of its support restricted to the processed
  prefix of the other dimension, and that of a line not yet processed is 0.\<close>

definition hashesMatch ::
  "(int \<Rightarrow> int) \<Rightarrow> int list \<Rightarrow> CMR_CHRMAT \<Rightarrow> CMR_CHRMAT \<Rightarrow> nat \<Rightarrow> nat \<Rightarrow> int list \<times> int list \<Rightarrow> bool" where
  "hashesMatch proj hashVector matrix transpose' numRows' numColumns' hs \<longleftrightarrow>
     length (fst hs) = numRows matrix \<and> length (snd hs) = numColumns matrix
     \<and> (\<forall>row < numRows matrix.
           fst hs ! row =
             (if row < numRows' then hashOf proj hashVector 0 (restrictedSupport matrix row numColumns')
              else 0))
     \<and> (\<forall>column < numColumns matrix.
           snd hs ! column =
             (if column < numColumns' then hashOf proj hashVector 0 (restrictedSupport transpose' column numRows')
              else 0))"

lemma takeWhile_filter_upt:
  "takeWhile (\<lambda>x. x < b) (filter P [0..<n]) = filter P [0..<min b n]"
proof (induction n)
  case 0
  then show ?case by simp
next
  case (Suc n)
  let ?xs = "filter P [0..<n]"
  let ?zs = "if P n then [n] else []"
  have split: "filter P [0..<Suc n] = ?xs @ ?zs" by simp
  show ?case
  proof (cases "n < b")
    case True
    then have all: "\<And>x. x \<in> set ?xs \<Longrightarrow> x < b" by auto
    have "takeWhile (\<lambda>x. x < b) (?xs @ ?zs) = ?xs @ takeWhile (\<lambda>x. x < b) ?zs"
      using all by (rule takeWhile_append2)
    also have "takeWhile (\<lambda>x. x < b) ?zs = ?zs" using True by simp
    finally have "takeWhile (\<lambda>x. x < b) (filter P [0..<Suc n]) = filter P [0..<Suc n]"
      unfolding split .
    moreover from True have "min b (Suc n) = Suc n" by simp
    ultimately show ?thesis by (simp only:)
  next
    case False
    then have m: "min b (Suc n) = min b n" by simp
    have "takeWhile (\<lambda>x. x < b) (?xs @ ?zs) = takeWhile (\<lambda>x. x < b) ?xs"
    proof (cases "\<forall>x \<in> set ?xs. x < b")
      case all: True
      then have a: "\<And>x. x \<in> set ?xs \<Longrightarrow> x < b" by blast
      have "takeWhile (\<lambda>x. x < b) (?xs @ ?zs) = ?xs @ takeWhile (\<lambda>x. x < b) ?zs"
        using a by (rule takeWhile_append2)
      also have "takeWhile (\<lambda>x. x < b) ?zs = []" using False by simp
      also have "?xs @ [] = takeWhile (\<lambda>x. x < b) ?xs"
        using all by (simp only: append_Nil2 takeWhile_eq_all_conv[THEN iffD2])
      finally show ?thesis .
    next
      case False
      then obtain x where "x \<in> set ?xs" "\<not> x < b" by blast
      then show ?thesis by (rule takeWhile_append1)
    qed
    then have "takeWhile (\<lambda>x. x < b) (filter P [0..<Suc n]) = takeWhile (\<lambda>x. x < b) ?xs"
      unfolding split .
    also have "\<dots> = filter P [0..<min b n]" by (rule Suc.IH)
    finally show ?thesis unfolding m .
  qed
qed

lemma rowsListedD:
  assumes "rowsListed matrix transpose'" and "row < numRows matrix"
  shows "rowEntries matrix row = filter (\<lambda>c. row \<in> set (rowEntries transpose' c)) [0..<numColumns matrix]"
proof -
  from assms(1) have "\<forall>row < numRows matrix.
        rowEntries matrix row = filter (\<lambda>c. row \<in> set (rowEntries transpose' c)) [0..<numColumns matrix]"
    unfolding rowsListed_def .
  then have "row < numRows matrix \<longrightarrow>
        rowEntries matrix row = filter (\<lambda>c. row \<in> set (rowEntries transpose' c)) [0..<numColumns matrix]"
    by (rule spec)
  then show ?thesis using assms(2) by (rule mp)
qed

lemma rowsListed_support:
  assumes "rowsListed matrix transpose'" and "row < numRows matrix" and "bound \<le> numColumns matrix"
  shows "restrictedSupport matrix row bound = filter (\<lambda>c. row \<in> set (rowEntries transpose' c)) [0..<bound]"
proof -
  have "restrictedSupport matrix row bound
      = takeWhile (\<lambda>c. c < bound) (filter (\<lambda>c. row \<in> set (rowEntries transpose' c)) [0..<numColumns matrix])"
    unfolding restrictedSupport_def using rowsListedD [OF assms(1,2)] by (rule arg_cong)
  also have "\<dots> = filter (\<lambda>c. row \<in> set (rowEntries transpose' c)) [0..<min bound (numColumns matrix)]"
    by (rule takeWhile_filter_upt)
  also have "min bound (numColumns matrix) = bound"
    using assms(3) by simp
  finally show ?thesis .
qed

lemma rowsListed_member:
  assumes "rowsListed matrix transpose'" and "row < numRows matrix" and "column < numColumns matrix"
  shows "column \<in> set (rowEntries matrix row) \<longleftrightarrow> row \<in> set (rowEntries transpose' column)"
proof -
  have "set (rowEntries matrix row)
      = set (filter (\<lambda>c. row \<in> set (rowEntries transpose' c)) [0..<numColumns matrix])"
    using rowsListedD [OF assms(1,2)] by (rule arg_cong)
  also have "\<dots> = {c. c < numColumns matrix \<and> row \<in> set (rowEntries transpose' c)}"
    by auto
  finally have "column \<in> set (rowEntries matrix row)
      \<longleftrightarrow> column \<in> {c. c < numColumns matrix \<and> row \<in> set (rowEntries transpose' c)}"
    by (rule arg_cong)
  then show ?thesis using assms(3) by simp
qed

lemma restrictedSupport_bound: "c \<in> set (restrictedSupport matrix row bound) \<Longrightarrow> c < bound"
  unfolding restrictedSupport_def by (rule set_takeWhileD [THEN conjunct2])

lemma rowsListed_support_member:
  assumes "rowsListed matrix transpose'" and "row < numRows matrix" and "bound \<le> numColumns matrix"
  shows "c \<in> set (restrictedSupport matrix row bound) \<longleftrightarrow> c < bound \<and> row \<in> set (rowEntries transpose' c)"
  unfolding rowsListed_support [OF assms] by auto

lemma rowsListed_support_distinct:
  assumes "rowsListed matrix transpose'" and "row < numRows matrix" and "bound \<le> numColumns matrix"
  shows "distinct (restrictedSupport matrix row bound)"
  unfolding rowsListed_support [OF assms] by simp

lemma hashOf_append: "hashOf proj hv h (xs @ ys) = hashOf proj hv (hashOf proj hv h xs) ys"
  by (simp add: hashOf_def)

lemma filter_upt_split: "a \<le> b \<Longrightarrow> filter P [0..<b] = filter P [0..<a] @ filter P [a..<b]"
proof -
  assume "a \<le> b"
  then obtain k where "b = a + k" using le_Suc_ex by blast
  then show ?thesis using upt_add_eq_append [of 0 a k] by simp
qed


lemma updateHashValues_call:
  assumes listed: "rowsListed matrix transpose'"
    and bounds: "majorBeyond \<le> numRows matrix" "minorSize \<le> numColumns matrix"
    and len: "length majorHashValues = numRows matrix" "length minorHashValues = numColumns matrix"
    and res: "updateHashValues proj matrix (majorHashValues, minorHashValues) hashVector
                majorFirst majorBeyond minorSize = (majorHashValues', minorHashValues')"
  shows "length majorHashValues' = numRows matrix"
    and "length minorHashValues' = numColumns matrix"
    and "\<And>r. r < numRows matrix \<Longrightarrow>
           majorHashValues' ! r =
             (if majorFirst \<le> r \<and> r < majorBeyond
              then hashOf proj hashVector (majorHashValues ! r) (restrictedSupport matrix r minorSize)
              else majorHashValues ! r)"
    and "\<And>c. c < numColumns matrix \<Longrightarrow>
           minorHashValues' ! c =
             (if c < minorSize
              then hashOf proj hashVector (minorHashValues ! c)
                     (filter (\<lambda>r. c \<in> set (rowEntries matrix r)) [majorFirst..<majorBeyond])
              else minorHashValues ! c)"
proof -
  have dist: "\<forall>r. majorFirst \<le> r \<and> r < majorBeyond \<longrightarrow> distinct (restrictedSupport matrix r minorSize)"
    using rowsListed_support_distinct [OF listed _ bounds(2)] bounds(1) by simp
  have le: "majorBeyond \<le> length majorHashValues"
    using bounds(1) len(1) by simp
  note all = updateHashValues_nth [OF le dist, where proj = proj and minorHashValues = minorHashValues
      and hashVector = hashVector, unfolded res, simplified]
  show "length majorHashValues' = numRows matrix" and "length minorHashValues' = numColumns matrix"
    using all len by simp_all
  show "majorHashValues' ! r =
             (if majorFirst \<le> r \<and> r < majorBeyond
              then hashOf proj hashVector (majorHashValues ! r) (restrictedSupport matrix r minorSize)
              else majorHashValues ! r)" if "r < numRows matrix" for r
    using all that len by simp
  show "minorHashValues' ! c =
             (if c < minorSize
              then hashOf proj hashVector (minorHashValues ! c)
                     (filter (\<lambda>r. c \<in> set (rowEntries matrix r)) [majorFirst..<majorBeyond])
              else minorHashValues ! c)" if c: "c < numColumns matrix" for c
  proof -
    have mem: "c \<in> set (restrictedSupport matrix r minorSize) \<longleftrightarrow> c < minorSize \<and> c \<in> set (rowEntries matrix r)"
      if "r \<in> set [majorFirst..<majorBeyond]" for r
      using rowsListed_support_member [OF listed _ bounds(2), of r c]
        rowsListed_member [OF listed _ c, of r] that bounds(1) by simp
    have "filter (\<lambda>r. c \<in> set (restrictedSupport matrix r minorSize)) [majorFirst..<majorBeyond]
        = filter (\<lambda>r. c < minorSize \<and> c \<in> set (rowEntries matrix r)) [majorFirst..<majorBeyond]"
      by (rule filter_cong [OF refl]) (rule mem)
    moreover have "minorHashValues' ! c = hashOf proj hashVector (minorHashValues ! c)
        (filter (\<lambda>r. c \<in> set (restrictedSupport matrix r minorSize)) [majorFirst..<majorBeyond])"
      using all c len by simp
    ultimately show ?thesis
      by (simp add: hashOf_def)
  qed
qed

lemma hashOf_support_extend:
  assumes listed: "rowsListed matrix transpose'" and row: "row < numRows matrix"
    and bounds: "bound \<le> bound'" "bound' \<le> numColumns matrix"
  shows "hashOf proj hashVector (hashOf proj hashVector 0 (restrictedSupport matrix row bound))
           (filter (\<lambda>c. row \<in> set (rowEntries transpose' c)) [bound..<bound'])
         = hashOf proj hashVector 0 (restrictedSupport matrix row bound')"
proof -
  have b: "bound \<le> numColumns matrix" using bounds by simp
  show ?thesis
    unfolding rowsListed_support [OF listed row b] rowsListed_support [OF listed row bounds(2)]
      filter_upt_split [OF bounds(1)] hashOf_append ..
qed

lemma hashesMatch_extend:
  assumes tr: "transposed matrix transpose'"
    and inv: "hashesMatch proj hashVector matrix transpose' numRows0 numColumns0 hs"
    and rows: "numRows0 \<le> numRows1" "numRows1 \<le> numRows matrix"
    and cols: "numColumns0 \<le> numColumns1" "numColumns1 \<le> numColumns matrix"
  shows "hashesMatch proj hashVector matrix transpose' numRows1 numColumns1
           (extendHashValues proj matrix transpose' hashVector numRows0 numColumns0 numRows1 numColumns1 hs)"
proof -
  obtain rh ch where hs: "hs = (rh, ch)" by (cases hs)
  obtain rh1 ch1 where r1: "updateHashValues proj matrix (rh, ch) hashVector numRows0 numRows1 numColumns0 = (rh1, ch1)"
    by (cases "updateHashValues proj matrix (rh, ch) hashVector numRows0 numRows1 numColumns0")
  obtain ch2 rh2 where r2: "updateHashValues proj transpose' (ch1, rh1) hashVector numColumns0 numColumns1 numRows1 = (ch2, rh2)"
    by (cases "updateHashValues proj transpose' (ch1, rh1) hashVector numColumns0 numColumns1 numRows1")
  have ext: "extendHashValues proj matrix transpose' hashVector numRows0 numColumns0 numRows1 numColumns1 hs = (rh2, ch2)"
    by (simp add: extendHashValues_def hs r1 r2)
  from tr have dims: "numRows transpose' = numColumns matrix" "numColumns transpose' = numRows matrix"
    and l1: "rowsListed matrix transpose'" and l2: "rowsListed transpose' matrix"
    by (simp_all add: transposed_def)
  from inv have len: "length rh = numRows matrix" "length ch = numColumns matrix"
    and rh: "\<And>r. r < numRows matrix \<Longrightarrow> rh ! r =
             (if r < numRows0 then hashOf proj hashVector 0 (restrictedSupport matrix r numColumns0) else 0)"
    and ch: "\<And>c. c < numColumns matrix \<Longrightarrow> ch ! c =
             (if c < numColumns0 then hashOf proj hashVector 0 (restrictedSupport transpose' c numRows0) else 0)"
    by (simp_all add: hashesMatch_def hs)
  have c0: "numColumns0 \<le> numColumns matrix" using cols by simp
  have r0: "numRows0 \<le> numRows matrix" using rows by simp
  note call1 = updateHashValues_call [OF l1 rows(2) c0 len r1]
  have r1': "numRows1 \<le> numColumns transpose'" using rows(2) dims by simp
  have c1': "numColumns1 \<le> numRows transpose'" using cols(2) dims by simp
  have len1: "length ch1 = numRows transpose'" "length rh1 = numColumns transpose'"
    using call1(1,2) dims by simp_all
  note call2 = updateHashValues_call [OF l2 c1' r1' len1 r2]
  have rows_ok: "rh2 ! r = (if r < numRows1 then hashOf proj hashVector 0 (restrictedSupport matrix r numColumns1) else 0)"
    if r: "r < numRows matrix" for r
  proof -
    have rt: "r < numColumns transpose'" using r dims by simp
    have a: "rh1 ! r = (if r < numRows1 then hashOf proj hashVector 0 (restrictedSupport matrix r numColumns0) else 0)"
      using call1(3) [OF r] rh [OF r] rows(1) by (auto simp: hashOf_def)
    show ?thesis
      using call2(4) [OF rt] a hashOf_support_extend [OF l1 r cols, of proj hashVector]
      by simp
  qed
  have cols_ok: "ch2 ! c = (if c < numColumns1 then hashOf proj hashVector 0 (restrictedSupport transpose' c numRows1) else 0)"
    if c: "c < numColumns matrix" for c
  proof -
    have ct: "c < numRows transpose'" using c dims by simp
    have rows': "numRows0 \<le> numRows1" "numRows1 \<le> numColumns transpose'"
      using rows dims by simp_all
    have a: "ch1 ! c = (if c < numColumns0 then hashOf proj hashVector 0 (restrictedSupport transpose' c numRows1) else 0)"
      using call1(4) [OF c] ch [OF c] hashOf_support_extend [OF l2 ct rows', of proj hashVector]
      by simp
    show ?thesis
      using call2(3) [OF ct] a cols(1) by auto
  qed
  show ?thesis
    unfolding ext hashesMatch_def using rows_ok cols_ok call2(1,2) dims by simp
qed

lemma hashesMatch_initial:
  assumes tr: "transposed matrix transpose'"
    and bounds: "numRows0 \<le> numRows matrix" "numColumns0 \<le> numColumns matrix"
  shows "hashesMatch proj hashVector matrix transpose' numRows0 numColumns0
           (updateHashValues proj matrix (replicate (numRows matrix) 0, replicate (numColumns matrix) 0)
              hashVector 0 numRows0 numColumns0)"
proof -
  obtain rh ch where r: "updateHashValues proj matrix (replicate (numRows matrix) 0, replicate (numColumns matrix) 0)
              hashVector 0 numRows0 numColumns0 = (rh, ch)"
    by (cases "updateHashValues proj matrix (replicate (numRows matrix) 0, replicate (numColumns matrix) 0)
              hashVector 0 numRows0 numColumns0")
  from tr have dims: "numRows transpose' = numColumns matrix" "numColumns transpose' = numRows matrix"
    and l1: "rowsListed matrix transpose'" and l2: "rowsListed transpose' matrix"
    by (simp_all add: transposed_def)
  have len: "length (replicate (numRows matrix) (0::int)) = numRows matrix"
    "length (replicate (numColumns matrix) (0::int)) = numColumns matrix"
    by simp_all
  note call = updateHashValues_call [OF l1 bounds len r]
  have cols_ok: "ch ! c = (if c < numColumns0 then hashOf proj hashVector 0 (restrictedSupport transpose' c numRows0) else 0)"
    if c: "c < numColumns matrix" for c
  proof -
    have ct: "c < numRows transpose'" using c dims by simp
    have b: "numRows0 \<le> numColumns transpose'" using bounds dims by simp
    show ?thesis
      using call(4) [OF c] c rowsListed_support [OF l2 ct b] by simp
  qed
  show ?thesis
    unfolding r hashesMatch_def using call(1,2) call(3) cols_ok by simp
qed


text \<open>The sequence boundaries are non-decreasing and stay within the matrix.\<close>

definition boundariesOk :: "CMR_CHRMAT \<Rightarrow> nat \<Rightarrow> nat list \<Rightarrow> nat list \<Rightarrow> bool" where
  "boundariesOk matrix lengthSequence sequenceNumRows sequenceNumColumns \<longleftrightarrow>
     lengthSequence \<le> length sequenceNumRows \<and> lengthSequence \<le> length sequenceNumColumns
     \<and> (\<forall>i < lengthSequence.
           sequenceNumRows ! i \<le> numRows matrix \<and> sequenceNumColumns ! i \<le> numColumns matrix)
     \<and> (\<forall>i. Suc i < lengthSequence \<longrightarrow>
           sequenceNumRows ! i \<le> sequenceNumRows ! Suc i
           \<and> sequenceNumColumns ! i \<le> sequenceNumColumns ! Suc i)"

text \<open>The hash arrays of the driver once step \<open>k\<close> is done: the call after the wheel, then
  the two calls that end each successful round (\<open>extensionLoop_hashes\<close> below shows that the
  driver's state carries exactly these).\<close>

fun hashValuesAfter ::
  "(int \<Rightarrow> int) \<Rightarrow> CMR_CHRMAT \<Rightarrow> CMR_CHRMAT \<Rightarrow> int list \<Rightarrow> nat list \<Rightarrow> nat list \<Rightarrow> nat
     \<Rightarrow> int list \<times> int list" where
  "hashValuesAfter proj matrix transpose' hashVector sequenceNumRows sequenceNumColumns 0 =
     updateHashValues proj matrix (replicate (numRows matrix) 0, replicate (numColumns matrix) 0)
       hashVector 0 (sequenceNumRows ! 0) (sequenceNumColumns ! 0)"
| "hashValuesAfter proj matrix transpose' hashVector sequenceNumRows sequenceNumColumns (Suc k) =
     extendHashValues proj matrix transpose' hashVector
       (sequenceNumRows ! k) (sequenceNumColumns ! k) (sequenceNumRows ! Suc k) (sequenceNumColumns ! Suc k)
       (hashValuesAfter proj matrix transpose' hashVector sequenceNumRows sequenceNumColumns k)"

lemma hashesMatch_after:
  assumes tr: "transposed matrix transpose'"
    and ok: "boundariesOk matrix lengthSequence sequenceNumRows sequenceNumColumns"
    and k: "k < lengthSequence"
  shows "hashesMatch proj hashVector matrix transpose' (sequenceNumRows ! k) (sequenceNumColumns ! k)
           (hashValuesAfter proj matrix transpose' hashVector sequenceNumRows sequenceNumColumns k)"
  using k
proof (induction k)
  case 0
  then have "sequenceNumRows ! 0 \<le> numRows matrix" "sequenceNumColumns ! 0 \<le> numColumns matrix"
    using ok by (simp_all add: boundariesOk_def)
  then show ?case
    using hashesMatch_initial [OF tr] by simp
next
  case (Suc k)
  then have k: "k < lengthSequence" by simp
  have b: "sequenceNumRows ! k \<le> sequenceNumRows ! Suc k" "sequenceNumRows ! Suc k \<le> numRows matrix"
    "sequenceNumColumns ! k \<le> sequenceNumColumns ! Suc k" "sequenceNumColumns ! Suc k \<le> numColumns matrix"
    using ok Suc.prems by (simp_all add: boundariesOk_def)
  show ?case
    using hashesMatch_extend [OF tr Suc.IH [OF k] b] by simp
qed

lemma extensionLoop_hashes:
  assumes "extensionLoop proj scratch matrix transpose' hashVector lengthSequence sequenceNumRows
             sequenceNumColumns extension (s0, last0) = Inr (s, lastMinor)"
    and "(rowHashValues s0, columnHashValues s0)
           = hashValuesAfter proj matrix transpose' hashVector sequenceNumRows sequenceNumColumns last0"
    and "extension = Suc last0"
  shows "(rowHashValues s, columnHashValues s)
           = hashValuesAfter proj matrix transpose' hashVector sequenceNumRows sequenceNumColumns lastMinor"
  using assms
proof (induction proj scratch matrix transpose' hashVector lengthSequence sequenceNumRows sequenceNumColumns
    extension "(s0, last0)" arbitrary: s0 last0 rule: extensionLoop.induct)
  case (1 proj scratch matrix transpose' hashVector lengthSequence sequenceNumRows sequenceNumColumns extension)
  show ?case
  proof (cases "extension < lengthSequence")
    case False
    then show ?thesis using "1.prems" by (subst (asm) extensionLoop.simps) simp
  next
    case True
    from True "1.prems"(1) have acc: "0 < extension \<and> extension < length sequenceNumRows
        \<and> extension < length sequenceNumColumns"
      by (subst (asm) extensionLoop.simps) (simp split: if_splits)
    obtain st' isGraphic where d: "extensionDispatch proj (fst (scratch extension)) (snd (scratch extension))
          matrix transpose' hashVector (sequenceNumRows ! (extension - 1)) (sequenceNumColumns ! (extension - 1))
          (sequenceNumRows ! extension) (sequenceNumColumns ! extension) s0 = Inr (st', isGraphic)"
      using True acc "1.prems"(1)
      by (subst (asm) extensionLoop.simps) (auto split: sum.splits)
    show ?thesis
    proof (cases isGraphic)
      case False
      then show ?thesis using True acc d "1.prems"
        by (subst (asm) extensionLoop.simps) auto
    next
      case g: True
      obtain rh ch where e: "extendHashValues proj matrix transpose' hashVector
                          (sequenceNumRows ! (extension - 1)) (sequenceNumColumns ! (extension - 1))
                          (sequenceNumRows ! extension) (sequenceNumColumns ! extension)
                          (rowHashValues s0, columnHashValues s0) = (rh, ch)"
        by (cases "extendHashValues proj matrix transpose' hashVector
                          (sequenceNumRows ! (extension - 1)) (sequenceNumColumns ! (extension - 1))
                          (sequenceNumRows ! extension) (sequenceNumColumns ! extension)
                          (rowHashValues s0, columnHashValues s0)")
      let ?s1 = "\<lparr>seqGraphic = st', rowHashValues = rh, columnHashValues = ch\<rparr>"
      have next': "extensionLoop proj scratch matrix transpose' hashVector lengthSequence sequenceNumRows
             sequenceNumColumns (extension + 1) (?s1, extension) = Inr (s, lastMinor)"
        using True acc d g e "1.prems"(1)
        by (subst (asm) extensionLoop.simps) simp
      have h: "(rowHashValues ?s1, columnHashValues ?s1)
           = hashValuesAfter proj matrix transpose' hashVector sequenceNumRows sequenceNumColumns extension"
        using e "1.prems"(2,3) by simp
      have acc': "\<not> \<not> (0 < extension \<and> extension < length sequenceNumRows
          \<and> extension < length sequenceNumColumns)"
        using acc by simp
      have d': "extensionDispatch proj (fst (scratch extension)) (snd (scratch extension))
          matrix transpose' hashVector (sequenceNumRows ! (extension - 1)) (sequenceNumColumns ! (extension - 1))
          (sequenceNumRows ! extension) (sequenceNumColumns ! extension) (fst (s0, last0)) = Inr (st', isGraphic)"
        using d by simp
      have e': "(rh, ch) = extendHashValues proj matrix transpose' hashVector
                          (sequenceNumRows ! (extension - 1)) (sequenceNumColumns ! (extension - 1))
                          (sequenceNumRows ! extension) (sequenceNumColumns ! extension)
                          (rowHashValues (fst (s0, last0)), columnHashValues (fst (s0, last0)))"
        using e by simp
      show ?thesis
        by (rule "1.hyps" [OF True acc' d' refl g e' next' h]) simp
    qed
  qed
qed


text \<open>A symmetric 4-by-4 matrix whose rows 0 and 3 agree on the first three columns.\<close>

definition matrixParallelLines :: CMR_CHRMAT where
  "matrixParallelLines =
     \<lparr>numRows = 4, numColumns = 4, rowSlice = [0, 3, 6, 8, 10],
      entryColumns = [0, 1, 3, 0, 2, 3, 1, 2, 0, 1]\<rparr>"

lemma support_eq_restricted_eq:
  assumes listed: "rowsListed matrix transpose'" and r1: "r1 < numRows matrix" and r2: "r2 < numRows matrix"
    and b: "bound \<le> numColumns matrix"
    and eq: "{c \<in> set (rowEntries matrix r1). c < bound} = {c \<in> set (rowEntries matrix r2). c < bound}"
  shows "restrictedSupport matrix r1 bound = restrictedSupport matrix r2 bound"
proof -
  have "(r1 \<in> set (rowEntries transpose' c)) = (r2 \<in> set (rowEntries transpose' c))"
    if "c \<in> set [0..<bound]" for c
  proof -
    have c: "c < bound" "c < numColumns matrix" using that b by simp_all
    have "c \<in> {c \<in> set (rowEntries matrix r1). c < bound} \<longleftrightarrow> c \<in> {c \<in> set (rowEntries matrix r2). c < bound}"
      using eq by simp
    then show ?thesis
      using c rowsListed_member [OF listed r1 c(2)] rowsListed_member [OF listed r2 c(2)] by simp
  qed
  then have "filter (\<lambda>c. r1 \<in> set (rowEntries transpose' c)) [0..<bound]
           = filter (\<lambda>c. r2 \<in> set (rowEntries transpose' c)) [0..<bound]"
    by (rule filter_cong [OF refl])
  then show ?thesis
    unfolding rowsListed_support [OF listed r1 b] rowsListed_support [OF listed r2 b] .
qed

lemma findParallel_hash_support:
  "fst (findParallel_hash proj matrix bound hashVector (rowSlice matrix ! row) (rowSlice matrix ! (row + 1)) 0 0)
     = hashOf proj hashVector 0 (restrictedSupport matrix row bound)"
  by (simp add: findParallel_hash_fold restrictedSupport_def rowEntries_def)

text \<open>
  Claim C6. Let \<open>r\<close> be a row processed at step \<open>k\<close> of the sequence, and \<open>row\<close> any row of the
  matrix whose nonzero support, restricted to the columns processed at step \<open>k\<close>, is the one
  of \<open>r\<close>. Then the accumulator of \<open>r\<close> is the hash value \<^verbatim>\<open>findParallel\<close> computes for
  \<open>row\<close>, so the test \<^verbatim>\<open>rowHashValues[row2] != hashValue\<close> does not skip \<open>r\<close>; and when \<open>row\<close>
  is processed too, the two accumulators are equal. The same holds for columns, on the
  transpose.
\<close>

theorem hash_filter_sound:
  assumes tr: "transposed matrix transpose'"
    and ok: "boundariesOk matrix lengthSequence sequenceNumRows sequenceNumColumns"
    and k: "k < lengthSequence"
    and rows: "r < sequenceNumRows ! k" "row < numRows matrix"
    and eq: "{c \<in> set (rowEntries matrix row). c < sequenceNumColumns ! k}
               = {c \<in> set (rowEntries matrix r). c < sequenceNumColumns ! k}"
    and columns: "c < sequenceNumColumns ! k" "column < numColumns matrix"
    and eq': "{r \<in> set (rowEntries transpose' column). r < sequenceNumRows ! k}
               = {r \<in> set (rowEntries transpose' c). r < sequenceNumRows ! k}"
  shows "fst (hashValuesAfter proj matrix transpose' hashVector sequenceNumRows sequenceNumColumns k) ! r
           = fst (findParallel_hash proj matrix (sequenceNumColumns ! k) hashVector
                    (rowSlice matrix ! row) (rowSlice matrix ! (row + 1)) 0 0)
     \<and> (row < sequenceNumRows ! k \<longrightarrow>
         fst (hashValuesAfter proj matrix transpose' hashVector sequenceNumRows sequenceNumColumns k) ! r
           = fst (hashValuesAfter proj matrix transpose' hashVector sequenceNumRows sequenceNumColumns k) ! row)
     \<and> snd (hashValuesAfter proj matrix transpose' hashVector sequenceNumRows sequenceNumColumns k) ! c
           = fst (findParallel_hash proj transpose' (sequenceNumRows ! k) hashVector
                    (rowSlice transpose' ! column) (rowSlice transpose' ! (column + 1)) 0 0)
     \<and> (column < sequenceNumColumns ! k \<longrightarrow>
         snd (hashValuesAfter proj matrix transpose' hashVector sequenceNumRows sequenceNumColumns k) ! c
           = snd (hashValuesAfter proj matrix transpose' hashVector sequenceNumRows sequenceNumColumns k) ! column)"
proof -
  let ?hs = "hashValuesAfter proj matrix transpose' hashVector sequenceNumRows sequenceNumColumns k"
  from tr have dims: "numRows transpose' = numColumns matrix" "numColumns transpose' = numRows matrix"
    and l1: "rowsListed matrix transpose'" and l2: "rowsListed transpose' matrix"
    by (simp_all add: transposed_def)
  have b: "sequenceNumRows ! k \<le> numRows matrix" "sequenceNumColumns ! k \<le> numColumns matrix"
    using ok k by (simp_all add: boundariesOk_def)
  have inv: "hashesMatch proj hashVector matrix transpose' (sequenceNumRows ! k) (sequenceNumColumns ! k) ?hs"
    by (rule hashesMatch_after [OF tr ok k])
  have r: "r < numRows matrix" using rows(1) b by simp
  have c: "c < numColumns matrix" using columns(1) b by simp
  have row_hash: "fst ?hs ! x = hashOf proj hashVector 0 (restrictedSupport matrix x (sequenceNumColumns ! k))"
    if "x < sequenceNumRows ! k" for x
    using inv that b by (simp add: hashesMatch_def)
  have column_hash: "snd ?hs ! x = hashOf proj hashVector 0 (restrictedSupport transpose' x (sequenceNumRows ! k))"
    if "x < sequenceNumColumns ! k" for x
    using inv that b by (simp add: hashesMatch_def)
  have s: "restrictedSupport matrix row (sequenceNumColumns ! k) = restrictedSupport matrix r (sequenceNumColumns ! k)"
    by (rule support_eq_restricted_eq [OF l1 rows(2) r b(2) eq])
  have s': "restrictedSupport transpose' column (sequenceNumRows ! k)
              = restrictedSupport transpose' c (sequenceNumRows ! k)"
    using support_eq_restricted_eq [OF l2, of column c "sequenceNumRows ! k"] columns(2) c b(1) eq' dims
    by simp
  have 1: "fst ?hs ! r = fst (findParallel_hash proj matrix (sequenceNumColumns ! k) hashVector
                    (rowSlice matrix ! row) (rowSlice matrix ! (row + 1)) 0 0)"
    unfolding findParallel_hash_support row_hash [OF rows(1)] s ..
  have 2: "fst ?hs ! r = fst ?hs ! row" if "row < sequenceNumRows ! k"
    unfolding row_hash [OF rows(1)] row_hash [OF that] s ..
  have 3: "snd ?hs ! c = fst (findParallel_hash proj transpose' (sequenceNumRows ! k) hashVector
                    (rowSlice transpose' ! column) (rowSlice transpose' ! (column + 1)) 0 0)"
    unfolding findParallel_hash_support column_hash [OF columns(1)] s' ..
  have 4: "snd ?hs ! c = snd ?hs ! column" if "column < sequenceNumColumns ! k"
    unfolding column_hash [OF columns(1)] column_hash [OF that] s' ..
  from 1 2 3 4 show ?thesis by blast
qed

lemma less_4_cases: "(row :: nat) < 4 \<Longrightarrow> row = 0 \<or> row = 1 \<or> row = 2 \<or> row = 3"
  by arith

lemma transposed_example: "transposed matrixParallelLines matrixParallelLines"
proof -
  have n: "numRows matrixParallelLines = 4" "numColumns matrixParallelLines = 4"
    by (simp_all add: matrixParallelLines_def)
  have 1: "rowEntries matrixParallelLines row
             = filter (\<lambda>c. row \<in> set (rowEntries matrixParallelLines c)) [0..<4]"
    if "row = 0 \<or> row = 1 \<or> row = 2 \<or> row = 3" for row
    using that by (elim disjE; hypsubst) code_simp+
  show ?thesis
    unfolding transposed_def rowsListed_def n using 1 less_4_cases by blast
qed

theorem hash_filter_sound_witness:
  "transposed matrixParallelLines matrixParallelLines
   \<and> boundariesOk matrixParallelLines 2 [3, 4] [3, 3]
   \<and> boundariesOk matrixParallelLines 2 [3, 3] [3, 4]
   \<and> {c \<in> set (rowEntries matrixParallelLines 3). c < 3} = {c \<in> set (rowEntries matrixParallelLines 0). c < 3}
   \<and> fst (hashValuesAfter (\<lambda>x. x) matrixParallelLines matrixParallelLines [1, 3, 9, 27] [3, 4] [3, 3] 1) ! 0
       = fst (findParallel_hash (\<lambda>x. x) matrixParallelLines 3 [1, 3, 9, 27]
                (rowSlice matrixParallelLines ! 3) (rowSlice matrixParallelLines ! (3 + 1)) 0 0)
   \<and> fst (hashValuesAfter (\<lambda>x. x) matrixParallelLines matrixParallelLines [1, 3, 9, 27] [3, 4] [3, 3] 1) ! 0
       = fst (hashValuesAfter (\<lambda>x. x) matrixParallelLines matrixParallelLines [1, 3, 9, 27] [3, 4] [3, 3] 1) ! 3
   \<and> snd (hashValuesAfter (\<lambda>x. x) matrixParallelLines matrixParallelLines [1, 3, 9, 27] [3, 3] [3, 4] 1) ! 0
       = snd (hashValuesAfter (\<lambda>x. x) matrixParallelLines matrixParallelLines [1, 3, 9, 27] [3, 3] [3, 4] 1) ! 3"
proof -
  have tr: "transposed matrixParallelLines matrixParallelLines"
    by (rule transposed_example)
  have ok1: "boundariesOk matrixParallelLines 2 [3, 4] [3, 3]"
    by (simp add: boundariesOk_def matrixParallelLines_def less_Suc_eq numeral_2_eq_2)
  have ok2: "boundariesOk matrixParallelLines 2 [3, 3] [3, 4]"
    by (simp add: boundariesOk_def matrixParallelLines_def less_Suc_eq numeral_2_eq_2)
  have e3: "rowEntries matrixParallelLines 3 = [0, 1]" by code_simp
  have e0: "rowEntries matrixParallelLines 0 = [0, 1, 3]" by code_simp
  have eq: "{c \<in> set (rowEntries matrixParallelLines 3). c < 3} = {c \<in> set (rowEntries matrixParallelLines 0). c < 3}"
    unfolding e3 e0 by auto
  have n: "numRows matrixParallelLines = 4" "numColumns matrixParallelLines = 4"
    by (simp_all add: matrixParallelLines_def)
  have a: "fst (hashValuesAfter (\<lambda>x. x) matrixParallelLines matrixParallelLines [1, 3, 9, 27] [3, 4] [3, 3] 1) ! 0
       = fst (findParallel_hash (\<lambda>x. x) matrixParallelLines 3 [1, 3, 9, 27]
                (rowSlice matrixParallelLines ! 3) (rowSlice matrixParallelLines ! (3 + 1)) 0 0)
     \<and> fst (hashValuesAfter (\<lambda>x. x) matrixParallelLines matrixParallelLines [1, 3, 9, 27] [3, 4] [3, 3] 1) ! 0
       = fst (hashValuesAfter (\<lambda>x. x) matrixParallelLines matrixParallelLines [1, 3, 9, 27] [3, 4] [3, 3] 1) ! 3"
    using hash_filter_sound [OF tr ok1, of 1 0 3 0 0 "\<lambda>x. x" "[1, 3, 9, 27]"] eq n by simp
  have b: "snd (hashValuesAfter (\<lambda>x. x) matrixParallelLines matrixParallelLines [1, 3, 9, 27] [3, 3] [3, 4] 1) ! 0
       = snd (hashValuesAfter (\<lambda>x. x) matrixParallelLines matrixParallelLines [1, 3, 9, 27] [3, 3] [3, 4] 1) ! 3"
    using hash_filter_sound [OF tr ok2, of 1 0 0 0 3 "\<lambda>x. x" "[1, 3, 9, 27]"] eq n by simp
  from tr ok1 ok2 eq a b show ?thesis by simp
qed


section \<open>The general one-column handler: paths and degrees\<close>

text \<open>
  The touched row-edges are taken as a multiset of pairs of end nodes. \<open>degreeIn M v\<close> is
  the degree of node \<open>v\<close> in the sub-edge-set \<open>M\<close> (a loop counts twice).
\<close>

definition degreeIn :: "(nat \<times> nat) multiset \<Rightarrow> nat \<Rightarrow> nat" where
  "degreeIn M v = size (filter_mset (\<lambda>e. fst e = v) M) + size (filter_mset (\<lambda>e. snd e = v) M)"

text \<open>
  \<open>M\<close> is a forest (it holds no cycle): every non-empty subset of its edges has a node of
  degree 1. A cycle is a non-empty subset without such a node, and a non-empty acyclic edge
  set always has one. The row-edges are tree edges by invariant I1, so every set of them is
  a forest.
\<close>

definition forestEdges :: "(nat \<times> nat) multiset \<Rightarrow> bool" where
  "forestEdges M \<longleftrightarrow> (\<forall>C. C \<subseteq># M \<and> C \<noteq> {#} \<longrightarrow> (\<exists>v. degreeIn C v = 1))"

text \<open>\<open>M\<close> is a simple path: up to the orientation of each edge, its edges are the steps
  \<open>(v\<^sub>0, v\<^sub>1), (v\<^sub>1, v\<^sub>2), \<dots>\<close> along a list of at least two distinct nodes.\<close>

definition unordered :: "nat \<times> nat \<Rightarrow> nat \<times> nat" where
  "unordered e = (min (fst e) (snd e), max (fst e) (snd e))"

definition simplePath :: "(nat \<times> nat) multiset \<Rightarrow> bool" where
  "simplePath M \<longleftrightarrow>
     (\<exists>vs. distinct vs \<and> 2 \<le> length vs
        \<and> image_mset unordered M = image_mset unordered (mset (zip vs (tl vs))))"

lemma degreeIn_empty [simp]: "degreeIn {#} v = 0"
  by (simp add: degreeIn_def)

lemma degreeIn_add [simp]:
  "degreeIn (add_mset e M) v = (if fst e = v then 1 else 0) + (if snd e = v then 1 else 0) + degreeIn M v"
  by (simp add: degreeIn_def)

lemma degreeIn_union [simp]: "degreeIn (M + N) v = degreeIn M v + degreeIn N v"
  by (simp add: degreeIn_def)

lemma degreeIn_unordered [simp]: "degreeIn (image_mset unordered M) v = degreeIn M v"
  by (induction M) (auto simp: unordered_def min_def max_def)

lemma degreeIn_mset_zip:
  "degreeIn (mset (zip vs (tl vs))) v = count_list (butlast vs) v + count_list (tl vs) v"
proof (induction vs rule: induct_list012)
  case 1 then show ?case by simp
next
  case (2 x) then show ?case by simp
next
  case (3 x y zs)
  then show ?case by auto
qed

lemma count_list_distinct: "distinct xs \<Longrightarrow> count_list xs v = (if v \<in> set xs then 1 else 0)"
  by (induction xs) auto

lemma path_leaves:
  assumes "distinct vs" and "2 \<le> length vs"
  shows "{v. degreeIn (mset (zip vs (tl vs))) v = 1} = {hd vs, last vs}" and "hd vs \<noteq> last vs"
proof -
  obtain x ys where vs: "vs = x # ys" and ys: "ys \<noteq> []"
    using assms(2) by (cases vs; cases "tl vs") auto
  have d1: "distinct (butlast vs)" and d2: "distinct (tl vs)"
    using assms(1) by (simp_all add: distinct_butlast distinct_tl)
  show ne: "hd vs \<noteq> last vs"
    using assms(1) vs ys by auto
  have app: "butlast vs @ [last vs] = vs"
    using vs by simp
  have "distinct (butlast vs @ [last vs])" "set (butlast vs @ [last vs]) = set vs"
    using assms(1) unfolding app by simp_all
  then have b: "set (butlast vs) = set vs - {last vs}"
    by auto
  have t: "set (tl vs) = set vs - {hd vs}"
    using assms(1) vs by auto
  show "{v. degreeIn (mset (zip vs (tl vs))) v = 1} = {hd vs, last vs}"
    unfolding degreeIn_mset_zip count_list_distinct [OF d1] count_list_distinct [OF d2] b t
    using ne vs ys by (auto split: if_splits)
qed


lemma forestEdges_subset: "forestEdges M \<Longrightarrow> C \<subseteq># M \<Longrightarrow> forestEdges C"
  unfolding forestEdges_def by (meson subset_mset.order_trans)

lemma leaf_edge:
  assumes "degreeIn M a = 1"
  obtains e M' x where "M = add_mset e M'" and "e = (a, x) \<or> e = (x, a)" and "x \<noteq> a"
    and "degreeIn M' a = 0"
proof -
  have "filter_mset (\<lambda>e. fst e = a) M \<noteq> {#} \<or> filter_mset (\<lambda>e. snd e = a) M \<noteq> {#}"
  proof (rule ccontr)
    assume "\<not> (filter_mset (\<lambda>e. fst e = a) M \<noteq> {#} \<or> filter_mset (\<lambda>e. snd e = a) M \<noteq> {#})"
    then have "filter_mset (\<lambda>e. fst e = a) M = {#}" "filter_mset (\<lambda>e. snd e = a) M = {#}"
      by blast+
    then have "degreeIn M a = 0" unfolding degreeIn_def by (simp only: size_empty)
    with assms show False by simp
  qed
  then obtain e where e: "e \<in># M" "fst e = a \<or> snd e = a"
    unfolding filter_mset_eq_mempty_iff by blast
  then obtain M' where M: "M = add_mset e M'"
    by (meson mset_add)
  have d: "(if fst e = a then 1 else 0) + (if snd e = a then 1 else 0) + degreeIn M' a = (1::nat)"
    using assms unfolding M by simp
  show thesis
  proof (cases "fst e = a")
    case True
    with d have "snd e \<noteq> a" "degreeIn M' a = 0" by (auto split: if_splits)
    with True M that [of e M' "snd e"] show ?thesis by (cases e) auto
  next
    case False
    with e d have "snd e = a" "degreeIn M' a = 0" by (auto split: if_splits)
    with False M that [of e M' "fst e"] show ?thesis by (cases e) auto
  qed
qed

lemma forest_two_leaves:
  "forestEdges M \<Longrightarrow> M \<noteq> {#} \<Longrightarrow> \<exists>a b. a \<noteq> b \<and> degreeIn M a = 1 \<and> degreeIn M b = 1"
proof (induction "size M" arbitrary: M rule: less_induct)
  case less
  from less.prems obtain a where a: "degreeIn M a = 1"
    unfolding forestEdges_def by blast
  from a obtain e M' x where M: "M = add_mset e M'" and e: "e = (a, x) \<or> e = (x, a)" and x: "x \<noteq> a"
    and a0: "degreeIn M' a = 0"
    by (rule leaf_edge)
  show ?case
  proof (cases "M' = {#}")
    case True
    then have "degreeIn M x = 1" using M e x by auto
    with a x show ?thesis by blast
  next
    case False
    have "forestEdges M'"
      using less.prems(1) M by (auto intro: forestEdges_subset)
    moreover have "size M' < size M" using M by simp
    ultimately obtain a' b' where l: "a' \<noteq> b'" "degreeIn M' a' = 1" "degreeIn M' b' = 1"
      using less.hyps False by blast
    then obtain y where y: "y \<noteq> x" "degreeIn M' y = 1" by metis
    then have "y \<noteq> a" using a0 by auto
    then have "degreeIn M y = 1" using M e y by auto
    with a \<open>y \<noteq> a\<close> show ?thesis by blast
  qed
qed

lemma forest_path:
  "forestEdges M \<Longrightarrow> {v. degreeIn M v = 1} = {a, b} \<Longrightarrow> a \<noteq> b \<Longrightarrow>
     \<exists>vs. distinct vs \<and> 2 \<le> length vs \<and> hd vs = a \<and> last vs = b
        \<and> set vs = {v. 0 < degreeIn M v}
        \<and> image_mset unordered M = image_mset unordered (mset (zip vs (tl vs)))"
proof (induction "size M" arbitrary: M a rule: less_induct)
  case less
  have a: "degreeIn M a = 1" and b: "degreeIn M b = 1"
    using less.prems(2) by auto
  from a obtain e M' x where M: "M = add_mset e M'" and e: "e = (a, x) \<or> e = (x, a)" and x: "x \<noteq> a"
    and a0: "degreeIn M' a = 0"
    by (rule leaf_edge)
  have ue: "unordered e = unordered (a, x)"
    using e by (auto simp: unordered_def min_def max_def)
  show ?case
  proof (cases "M' = {#}")
    case True
    then have "degreeIn M x = 1" using M e x by auto
    then have xb: "x = b" using less.prems(2) x by auto
    have "set [a, b] = {v. 0 < degreeIn M v}"
      using M e True xb by auto
    moreover have "image_mset unordered M = image_mset unordered (mset (zip [a, b] (tl [a, b])))"
      using M True ue xb by simp
    ultimately show ?thesis
      using less.prems(3) by (intro exI [of _ "[a, b]"]) simp
  next
    case False
    have f: "forestEdges M'"
      using less.prems(1) M by (auto intro: forestEdges_subset)
    have sz: "size M' < size M" using M by simp
    have other: "degreeIn M' v = degreeIn M v" if "v \<noteq> a" "v \<noteq> x" for v
      using M e that by auto
    have dx: "degreeIn M x = degreeIn M' x + 1"
      using M e x by auto
    obtain a' b' where l: "a' \<noteq> b'" "degreeIn M' a' = 1" "degreeIn M' b' = 1"
      using forest_two_leaves [OF f False] by blast
    have sub: "v = x \<or> v = b" if "degreeIn M' v = 1" for v
    proof (cases "v = x")
      case True then show ?thesis by simp
    next
      case False
      moreover have "v \<noteq> a" using that a0 by auto
      ultimately have "degreeIn M v = 1" using other that by simp
      then show ?thesis using less.prems(2) \<open>v \<noteq> a\<close> by auto
    qed
    from l sub have "{a', b'} = {x, b}" and xb: "x \<noteq> b"
      by (metis doubleton_eq_iff)+
    then have leaves: "{v. degreeIn M' v = 1} = {x, b}"
      using l sub by auto
    from less.hyps [OF sz f leaves xb] obtain vs where vs: "distinct vs" "2 \<le> length vs" "hd vs = x"
      "last vs = b" "set vs = {v. 0 < degreeIn M' v}"
      "image_mset unordered M' = image_mset unordered (mset (zip vs (tl vs)))"
      by blast
    obtain ws where ws: "vs = x # ws" and wsne: "ws \<noteq> []"
      using vs(2,3) by (cases vs; cases "tl vs") auto
    have an: "a \<notin> set vs" using vs(5) a0 by simp
    have "distinct (a # vs)" using vs(1) an by simp
    moreover have "2 \<le> length (a # vs)" using vs(2) by simp
    moreover have "hd (a # vs) = a" by simp
    moreover have "last (a # vs) = b" using vs(4) ws by simp
    moreover have "set (a # vs) = {v. 0 < degreeIn M v}"
    proof -
      have x1: "degreeIn M' x = 1" using leaves by auto
      have "0 < degreeIn M v \<longleftrightarrow> v = a \<or> 0 < degreeIn M' v" for v
        using other [of v] a dx a0 x1 by (cases "v = a"; cases "v = x") auto
      then show ?thesis using vs(5) by auto
    qed
    moreover have "image_mset unordered M = image_mset unordered (mset (zip (a # vs) (tl (a # vs))))"
      using M ue vs(6) ws by simp
    ultimately show ?thesis by blast
  qed
qed

lemma simplePath_iff_two_leaves:
  assumes "forestEdges M"
  shows "simplePath M \<longleftrightarrow> card {v. degreeIn M v = 1} = 2"
proof
  assume "simplePath M"
  then obtain vs where vs: "distinct vs" "2 \<le> length vs"
    "image_mset unordered M = image_mset unordered (mset (zip vs (tl vs)))"
    unfolding simplePath_def by blast
  have "degreeIn M v = degreeIn (mset (zip vs (tl vs))) v" for v
    using arg_cong [OF vs(3), of "\<lambda>N. degreeIn N v"] by simp
  then have "{v. degreeIn M v = 1} = {hd vs, last vs}"
    using path_leaves(1) [OF vs(1,2)] by simp
  then show "card {v. degreeIn M v = 1} = 2"
    using path_leaves(2) [OF vs(1,2)] by simp
next
  assume "card {v. degreeIn M v = 1} = 2"
  then obtain a b where "{v. degreeIn M v = 1} = {a, b}" "a \<noteq> b"
    by (auto simp: card_2_iff)
  from forest_path [OF assms this] show "simplePath M"
    unfolding simplePath_def by blast
qed

text \<open>The end nodes of the row-edges of the rows with a nonzero in the new column, as the
  handler reads them (\<open>None\<close> when one of the reads fails).\<close>

fun touchedEdges :: "graphic_state \<Rightarrow> nat list \<Rightarrow> (nat \<times> nat) list option" where
  "touchedEdges st [] = Some []"
| "touchedEdges st (row # nonzeroRows) =
     (case readEdge (stRowEdges st) row of
        Inl err \<Rightarrow> None
      | Inr e \<Rightarrow>
          (case CMRgraphEdgeUV (stGraph st) e of
             Inl err \<Rightarrow> None
           | Inr uv \<Rightarrow> map_option (\<lambda>E. uv # E) (touchedEdges st nonzeroRows)))"

text \<open>The nodes whose entry in \<^verbatim>\<open>nodeDegrees\<close> is 1.\<close>

definition leavesOf :: "nat list \<Rightarrow> nat set" where
  "leavesOf nodeDegrees = {v. v < length nodeDegrees \<and> nodeDegrees ! v = 1}"

lemma leavesOf_finite [simp]: "finite (leavesOf ds)"
  by (simp add: leavesOf_def)

lemma leavesOf_card_le: "card (leavesOf ds) \<le> length ds"
proof -
  have "leavesOf ds \<subseteq> {..<length ds}" by (auto simp: leavesOf_def)
  then have "card (leavesOf ds) \<le> card {..<length ds}" by (intro card_mono) simp_all
  then show ?thesis by simp
qed

lemma unat_pred: "0 < n \<Longrightarrow> n < 2 ^ 64 \<Longrightarrow> unat (word_of_nat n - 1 :: 64 word) = n - 1"
proof -
  assume n: "0 < n" "n < 2 ^ 64"
  have "(word_of_nat n - 1 :: 64 word) = word_of_nat (n - 1)"
    using n(1) by (simp add: of_nat_diff)
  then show ?thesis using n(2) by (simp add: unat_of_nat)
qed

lemma countDegree_leaves:
  assumes v: "v < length ds" and n: "length ds < 2 ^ 64"
  shows "countDegree v (ds, card (leavesOf ds)) = (ds[v := ds ! v + 1], card (leavesOf (ds[v := ds ! v + 1])))"
proof -
  let ?ds' = "ds[v := ds ! v + 1]"
  consider (zero) "ds ! v = 0" | (one) "ds ! v = 1" | (more) "ds ! v > 1" by arith
  then have "(if ds ! v + 1 = 1 then card (leavesOf ds) + 1
              else if ds ! v + 1 = 2 then unat (word_of_nat (card (leavesOf ds)) - 1 :: 64 word)
              else card (leavesOf ds)) = card (leavesOf ?ds')"
  proof cases
    case zero
    then have "leavesOf ?ds' = insert v (leavesOf ds)" "v \<notin> leavesOf ds"
      using v by (auto simp: leavesOf_def nth_list_update)
    then show ?thesis using zero by simp
  next
    case one
    then have l: "leavesOf ?ds' = leavesOf ds - {v}" "v \<in> leavesOf ds"
      using v by (auto simp: leavesOf_def nth_list_update)
    then have pos: "0 < card (leavesOf ds)"
      by (auto simp: card_gt_0_iff)
    have lt: "card (leavesOf ds) < 2 ^ 64"
      using leavesOf_card_le [of ds] n by simp
    show ?thesis using one l unat_pred [OF pos lt] by simp
  next
    case more
    then have "leavesOf ?ds' = leavesOf ds"
      using v by (auto simp: leavesOf_def nth_list_update)
    then show ?thesis using more by simp
  qed
  then show ?thesis unfolding countDegree_def Let_def prod.case by (simp only:)
qed

lemma addToGraph1Column_degrees_result:
  assumes "addToGraph1Column_degrees st nonzeroRows (ds, card (leavesOf ds)) = Inr (ds', countLeaves)"
    and "length ds < 2 ^ 64"
  shows "\<exists>E. touchedEdges st nonzeroRows = Some E
           \<and> length ds' = length ds
           \<and> (\<forall>v < length ds. ds' ! v = ds ! v + degreeIn (mset E) v)
           \<and> (\<forall>e \<in> set E. fst e < length ds \<and> snd e < length ds)
           \<and> countLeaves = card (leavesOf ds')"
  using assms
proof (induction nonzeroRows arbitrary: ds)
  case Nil
  then show ?case by auto
next
  case (Cons row nonzeroRows)
  from Cons.prems(1) obtain e u v where e: "readEdge (stRowEdges st) row = Inr e"
    and uv: "CMRgraphEdgeUV (stGraph st) e = Inr (u, v)"
    and lt: "u < length ds" "v < length ds"
    and rest: "addToGraph1Column_degrees st nonzeroRows (countDegree v (countDegree u (ds, card (leavesOf ds))))
                 = Inr (ds', countLeaves)"
    by (auto simp: ebind_eq_Inr split: if_splits)
  let ?d1 = "ds[u := ds ! u + 1]"
  let ?d2 = "?d1[v := ?d1 ! v + 1]"
  have c1: "countDegree u (ds, card (leavesOf ds)) = (?d1, card (leavesOf ?d1))"
    by (rule countDegree_leaves [OF lt(1) Cons.prems(2)])
  have c2: "countDegree v (?d1, card (leavesOf ?d1)) = (?d2, card (leavesOf ?d2))"
    using countDegree_leaves [of v ?d1] lt(2) Cons.prems(2) by simp
  have rest': "addToGraph1Column_degrees st nonzeroRows (?d2, card (leavesOf ?d2)) = Inr (ds', countLeaves)"
    using rest unfolding c1 c2 .
  have len2: "length ?d2 < 2 ^ 64" using Cons.prems(2) by simp
  from Cons.IH [OF rest' len2] obtain E where E: "touchedEdges st nonzeroRows = Some E"
    "length ds' = length ?d2" "\<forall>w < length ?d2. ds' ! w = ?d2 ! w + degreeIn (mset E) w"
    "\<forall>e \<in> set E. fst e < length ?d2 \<and> snd e < length ?d2" "countLeaves = card (leavesOf ds')"
    by blast
  have "touchedEdges st (row # nonzeroRows) = Some ((u, v) # E)"
    using e uv E(1) by simp
  moreover have "\<forall>w < length ds. ds' ! w = ds ! w + degreeIn (mset ((u, v) # E)) w"
    using E(3) lt by (auto simp: nth_list_update)
  ultimately show ?case
    using E(2,4,5) lt by auto
qed


lemma addToGraph1Column_leaves_filter:
  "addToGraph1Column_leaves ds nodes (n0, n1) =
     (case filter (\<lambda>v. ds ! v = 1) nodes of
        [] \<Rightarrow> (n0, n1)
      | a # rest \<Rightarrow>
          (case n0 of
             None \<Rightarrow> (Some a, if rest = [] then n1 else Some (last rest))
           | Some a0 \<Rightarrow> (Some a0, Some (last (a # rest)))))"
proof (induction nodes arbitrary: n0 n1)
  case Nil
  then show ?case by simp
next
  case (Cons v nodes)
  show ?case
  proof (cases "ds ! v = 1")
    case False
    then show ?thesis using Cons.IH by simp
  next
    case True
    then show ?thesis
      using Cons.IH by (cases n0; cases "filter (\<lambda>v. ds ! v = 1) nodes") auto
  qed
qed

lemma two_leaves_scan:
  assumes "card (leavesOf ds) = 2"
  shows "\<exists>a b. a < b \<and> leavesOf ds = {a, b}
           \<and> addToGraph1Column_leaves ds [0..<length ds] (None, None) = (Some a, Some b)"
proof -
  let ?ls = "filter (\<lambda>v. ds ! v = 1) [0..<length ds]"
  have set: "set ?ls = leavesOf ds" by (auto simp: leavesOf_def)
  have d: "distinct ?ls" by simp
  have "length ?ls = 2"
    using distinct_card [OF d] assms set by simp
  then obtain a b where ls: "?ls = [a, b]"
    by (auto simp: length_Suc_conv numeral_2_eq_2)
  have "sorted_wrt (<) ?ls"
    by (rule sorted_wrt_filter) (rule sorted_wrt_upt)
  then have "a < b" unfolding ls by simp
  moreover have "leavesOf ds = {a, b}" using set unfolding ls by auto
  moreover have "addToGraph1Column_leaves ds [0..<length ds] (None, None) = (Some a, Some b)"
    unfolding addToGraph1Column_leaves_filter ls by simp
  ultimately show ?thesis by blast
qed

lemma degreeIn_pos_endpoint:
  "0 < degreeIn (mset E) v \<Longrightarrow> \<exists>e \<in> set E. fst e = v \<or> snd e = v"
  by (induction E) (auto split: if_splits)

lemma CMRgraphAddEdge_ends:
  "CMRgraphAddEdge g u v = (g', e) \<Longrightarrow> (\<forall>f \<in> set (graphFreeEdges g). f < length (graphEdges g))
     \<Longrightarrow> CMRgraphEdgeUV g' e = Inr (u, v)"
  by (cases "graphFreeEdges g") (auto simp: CMRgraphAddEdge_def CMRgraphEdgeUV_def)

text \<open>
  Claim C5. Whenever \<^verbatim>\<open>addToGraph1Column\<close> returns a verdict (on a graph with fewer than
  \<open>2\<^sup>6\<^sup>4\<close> nodes), it reports graphic if and only if exactly two nodes have degree 1 in the
  sub-edge-set \<open>E\<close> of the touched row-edges; for row-edges that form a forest, as the tree
  edges do, that is the case if and only if \<open>E\<close> is a simple path. On success the graph is
  the old one with one edge added between the two nodes of degree 1, the new column is
  mapped to that edge, and the row map is unchanged.
\<close>

theorem addToGraph1Column_verdict:
  assumes run: "addToGraph1Column st baseNumRows baseNumColumns nonzeroRows = Inr (st', isGraphic)"
    and nodes: "graphNumNodes (stGraph st) < 2 ^ 64"
  shows "\<exists>E. touchedEdges st nonzeroRows = Some E
           \<and> (isGraphic \<longleftrightarrow> card {v. degreeIn (mset E) v = 1} = 2)
           \<and> (forestEdges (mset E) \<longrightarrow> (isGraphic \<longleftrightarrow> simplePath (mset E)))
           \<and> (isGraphic \<longrightarrow>
                (\<exists>a b e. a < b \<and> {v. degreeIn (mset E) v = 1} = {a, b}
                   \<and> CMRgraphAddEdge (stGraph st) a b = (stGraph st', e)
                   \<and> stColumnEdges st' = (stColumnEdges st)[baseNumColumns := Some e]
                   \<and> stRowEdges st' = stRowEdges st))"
proof -
  let ?n = "graphNumNodes (stGraph st)"
  let ?zero = "replicate ?n (0::nat)"
  have z: "card (leavesOf ?zero) = 0" by (simp add: leavesOf_def)
  from run obtain ds countLeaves where
    loop: "addToGraph1Column_degrees st nonzeroRows (?zero, card (leavesOf ?zero)) = Inr (ds, countLeaves)"
    and fin: "(if countLeaves = 2 then
            (case addToGraph1Column_leaves ds (CMRgraphNodes (stGraph st)) (None, None) of
               (Some node0, Some node1) \<Rightarrow>
                 (let (g1, newColumnEdge) = CMRgraphAddEdge (stGraph st) node0 node1
                  in ebind (writeEdge (stColumnEdges st) baseNumColumns newColumnEdge) (\<lambda>columnEdges'.
                       Inr (st\<lparr>stGraph := g1, stColumnEdges := columnEdges'\<rparr>, True)))
             | _ \<Rightarrow> Inl InvalidAccess)
          else Inr (st, False)) = Inr (st', isGraphic)"
    unfolding addToGraph1Column_def z
    by (auto simp: ebind_eq_Inr split: if_splits)
  have len0: "length ?zero < 2 ^ 64" using nodes by simp
  from addToGraph1Column_degrees_result [OF loop len0] obtain E where
    E: "touchedEdges st nonzeroRows = Some E" "length ds = ?n"
    "\<forall>v < ?n. ds ! v = degreeIn (mset E) v"
    "\<forall>e \<in> set E. fst e < ?n \<and> snd e < ?n" "countLeaves = card (leavesOf ds)"
    by auto
  have leaves: "leavesOf ds = {v. degreeIn (mset E) v = 1}"
  proof -
    have "v < ?n" if "degreeIn (mset E) v = 1" for v
      using degreeIn_pos_endpoint [of E v] that E(4) by auto
    then show ?thesis using E(2,3) by (auto simp: leavesOf_def)
  qed
  have verdict: "isGraphic \<longleftrightarrow> countLeaves = 2"
    using fin by (auto simp: ebind_eq_Inr split_def Let_def split: if_splits option.splits)
  have 1: "isGraphic \<longleftrightarrow> card {v. degreeIn (mset E) v = 1} = 2"
    using verdict E(5) leaves by simp
  have 2: "isGraphic \<longleftrightarrow> simplePath (mset E)" if "forestEdges (mset E)"
    using 1 simplePath_iff_two_leaves [OF that] by simp
  have 3: "\<exists>a b e. a < b \<and> {v. degreeIn (mset E) v = 1} = {a, b}
                   \<and> CMRgraphAddEdge (stGraph st) a b = (stGraph st', e)
                   \<and> stColumnEdges st' = (stColumnEdges st)[baseNumColumns := Some e]
                   \<and> stRowEdges st' = stRowEdges st" if g: isGraphic
  proof -
    have c: "card (leavesOf ds) = 2" using g verdict E(5) by simp
    from two_leaves_scan [OF c] obtain a b where ab: "a < b" "leavesOf ds = {a, b}"
      "addToGraph1Column_leaves ds (CMRgraphNodes (stGraph st)) (None, None) = (Some a, Some b)"
      unfolding E(2) CMRgraphNodes_def by blast
    obtain g1 e where add: "CMRgraphAddEdge (stGraph st) a b = (g1, e)"
      by (cases "CMRgraphAddEdge (stGraph st) a b")
    have "st' = st\<lparr>stGraph := g1, stColumnEdges := (stColumnEdges st)[baseNumColumns := Some e]\<rparr>"
      using fin g verdict ab(3) add
      by (auto simp: ebind_eq_Inr writeEdge_def Let_def split: if_splits)
    then show ?thesis using ab(1,2) add leaves by auto
  qed
  from E(1) 1 2 3 show ?thesis by blast
qed


lemma forestEdges_empty: "forestEdges {#}"
  by (simp add: forestEdges_def)

lemma forestEdges_pendant:
  assumes f: "forestEdges M" and a: "degreeIn M a = 0" and e: "e = (a, x) \<or> e = (x, a)" and x: "x \<noteq> a"
  shows "forestEdges (add_mset e M)"
  unfolding forestEdges_def
proof (intro allI impI)
  fix C assume C: "C \<subseteq># add_mset e M \<and> C \<noteq> {#}"
  show "\<exists>v. degreeIn C v = 1"
  proof (cases "e \<in># C")
    case False
    then have "C \<subseteq># M" using C
      by (metis diff_single_trivial subset_eq_diff_conv add_mset_add_single)
    then show ?thesis using f C unfolding forestEdges_def by blast
  next
    case True
    then obtain C' where C': "C = add_mset e C'" by (meson mset_add)
    then have "C' \<subseteq># M" using C by simp
    then have "degreeIn C' a \<le> degreeIn M a"
      unfolding degreeIn_def by (intro add_mono size_mset_mono multiset_filter_mono)
    then have "degreeIn C' a = 0" using a by simp
    then have "degreeIn C a = 1" using C' e x by auto
    then show ?thesis by blast
  qed
qed

theorem addToGraph1Column_verdict_witness:
  "addToGraph1Column wheel3 3 3 [0, 1]
     = Inr (\<lparr>stGraph = \<lparr>graphNumNodes = 4,
                         graphEdges = [Some (1, 2), Some (0, 2), Some (2, 3), Some (0, 3), Some (3, 1),
                                       Some (0, 1), Some (1, 2)],
                         graphFreeEdges = []\<rparr>,
             stRowEdges = [Some 1, Some 5, Some 3, None],
             stColumnEdges = [Some 0, Some 2, Some 4, Some 6]\<rparr>, True)
   \<and> graphNumNodes (stGraph wheel3) < 2 ^ 64
   \<and> touchedEdges wheel3 [0, 1] = Some [(0, 2), (0, 1)]
   \<and> forestEdges (mset [(0, 2), (0, 1)])
   \<and> simplePath (mset [(0, 2), (0, 1)])
   \<and> card {v. degreeIn (mset [(0, 2), (0, 1)]) v = 1} = 2"
proof -
  let ?st' = "\<lparr>stGraph = \<lparr>graphNumNodes = 4,
                         graphEdges = [Some (1, 2), Some (0, 2), Some (2, 3), Some (0, 3), Some (3, 1),
                                       Some (0, 1), Some (1, 2)],
                         graphFreeEdges = []\<rparr>,
             stRowEdges = [Some 1, Some 5, Some 3, None],
             stColumnEdges = [Some 0, Some 2, Some 4, Some 6]\<rparr>"
  have run: "addToGraph1Column wheel3 3 3 [0, 1] = Inr (?st', True)"
    by code_simp
  have n: "graphNumNodes (stGraph wheel3) < 2 ^ 64"
    by (simp add: wheel3_def)
  have t: "touchedEdges wheel3 [0, 1] = Some [(0, 2), (0, 1)]"
    by code_simp
  have "forestEdges (add_mset (0, 2) (add_mset (0, 1) {#}))"
    by (intro forestEdges_pendant [where a = 2 and x = 0] forestEdges_pendant [where a = 1 and x = 0]
        forestEdges_empty) simp_all
  then have f: "forestEdges (mset [(0, 2), (0, 1)])" by simp
  from addToGraph1Column_verdict [OF run n] t f
  have "simplePath (mset [(0, 2), (0, 1)])" "card {v. degreeIn (mset [(0, 2), (0, 1)]) v = 1} = 2"
    by auto
  with run n t f show ?thesis by blast
qed


section \<open>What the sequence driver hands back\<close>

text \<open>The graph state \<^verbatim>\<open>createWheel\<close> leaves for the wheel with a row and a column of 3
  nonzeros: the edge map of the columns has no entry for column 2.\<close>

definition wheelWithThreeState :: graphic_state where
  "wheelWithThreeState =
     \<lparr>stGraph = \<lparr>graphNumNodes = 4,
                  graphEdges = [Some (1, 2), Some (0, 2), Some (2, 3), Some (0, 3), Some (3, 1), Some (0, 1)],
                  graphFreeEdges = []\<rparr>,
      stRowEdges = [Some 1, Some 2, Some 5],
      stColumnEdges = [Some 4, Some 3, None]\<rparr>"

text \<open>
  Claim C4. The claim fails on the sequence that consists of that wheel alone. The driver
  builds the wheel, its loop has no step to run and leaves \<^verbatim>\<open>*plastGraphicMinor\<close> at 0, which
  is \<^verbatim>\<open>lengthSequence - 1\<close>, so the driver takes the branch of full success and fills
  \<^verbatim>\<open>edgeElements\<close>. There it reads \<^verbatim>\<open>columnEdges[2]\<close>, which was never written: the array it
  hands back is not the inverse of the edge maps. In the model the read is an
  \<open>InvalidAccess\<close>.
\<close>

theorem CMRregularSequenceGraphic_reads_unwritten_edge:
  "createWheel \<lparr>stGraph = CMRgraphCreateEmpty,
                 stRowEdges = replicate (numRows wheelWithThree) None,
                 stColumnEdges = replicate (numColumns wheelWithThree) None\<rparr>
       wheelWithThree wheelWithThree 3 = Some (Inr wheelWithThreeState)
   \<and> extensionLoop (\<lambda>x. x) (\<lambda>i. (\<lambda>v. False, \<lambda>v. None)) wheelWithThree wheelWithThree
         (createHashVector (\<lambda>x. x) 3) 1 [3] [3] 1
         (\<lparr>seqGraphic = wheelWithThreeState, rowHashValues = [13, 4, 10], columnHashValues = [13, 4, 10]\<rparr>, 0)
       = Inr (\<lparr>seqGraphic = wheelWithThreeState, rowHashValues = [13, 4, 10],
                columnHashValues = [13, 4, 10]\<rparr>, 0)
   \<and> size_sub 1 1 = 0
   \<and> fillEdgeElements CMRrowToElement (stRowEdges wheelWithThreeState) [0..<numRows wheelWithThree]
         (replicate (numRows wheelWithThree + numColumns wheelWithThree) NoElement)
       = Inr [NoElement, RowElement 0, RowElement 1, NoElement, NoElement, RowElement 2]
   \<and> readEdge (stColumnEdges wheelWithThreeState) 2 = Inl InvalidAccess
   \<and> CMRregularSequenceGraphic (\<lambda>x. x) (\<lambda>i. (\<lambda>v. False, \<lambda>v. None)) wheelWithThree wheelWithThree
         1 [3] [3] = Some (Inl InvalidAccess)"
  by code_simp


section \<open>The invariants across an extension step\<close>

text \<open>
  A handler that adds a row splits a node: it adds a node (the sister node), moves some
  edges of the split node over to it, and joins the two by the new row-edge.
  \<open>contractNode\<close> undoes the split on an edge: it maps the sister node back to the split
  node.
\<close>

definition contractNode :: "nat \<Rightarrow> nat \<Rightarrow> nat \<times> nat \<Rightarrow> nat \<times> nat" where
  "contractNode splitNode sisterNode e =
     ((if fst e = sisterNode then splitNode else fst e), (if snd e = sisterNode then splitNode else snd e))"

lemma subset_image_mset:
  "D \<subseteq># image_mset f M \<Longrightarrow> \<exists>C. C \<subseteq># M \<and> D = image_mset f C"
proof (induction M arbitrary: D)
  case empty
  then show ?case by simp
next
  case (add x M)
  show ?case
  proof (cases "f x \<in># D")
    case True
    then obtain D' where D: "D = add_mset (f x) D'" by (meson mset_add)
    then have "D' \<subseteq># image_mset f M" using add.prems by simp
    then obtain C where "C \<subseteq># M" "D' = image_mset f C" using add.IH by blast
    then have "add_mset x C \<subseteq># add_mset x M" "D = image_mset f (add_mset x C)" using D by simp_all
    then show ?thesis by blast
  next
    case False
    have "D \<subseteq># add_mset (f x) (image_mset f M)" using add.prems by simp
    then have "D \<subseteq># image_mset f M" using False
      by (metis diff_single_trivial subset_eq_diff_conv add_mset_add_single)
    then obtain C where c: "C \<subseteq># M" and d: "D = image_mset f C" using add.IH by blast
    have "M \<subseteq># add_mset x M" by simp
    with c have "C \<subseteq># add_mset x M" by (rule subset_mset.order_trans)
    then show ?thesis using d by blast
  qed
qed

lemma degreeIn_contract:
  assumes "splitNode \<noteq> sisterNode"
  shows "degreeIn (image_mset (contractNode splitNode sisterNode) D) v =
     (if v = sisterNode then 0
      else if v = splitNode then degreeIn D splitNode + degreeIn D sisterNode
      else degreeIn D v)"
  using assms by (induction D) (auto simp: contractNode_def)

lemma forest_vertex_split:
  assumes f: "forestEdges M"
    and eq: "image_mset unordered (image_mset (contractNode splitNode sisterNode) M') = image_mset unordered M"
    and ne: "splitNode \<noteq> sisterNode"
    and e0: "e0 = (splitNode, sisterNode) \<or> e0 = (sisterNode, splitNode)"
  shows "forestEdges (add_mset e0 M')"
  unfolding forestEdges_def
proof (intro allI impI)
  fix C' assume C': "C' \<subseteq># add_mset e0 M' \<and> C' \<noteq> {#}"
  obtain D k where D: "D \<subseteq># M'" and k: "k \<le> 1"
    and deg: "\<And>v. degreeIn C' v = degreeIn D v + (if v = splitNode \<or> v = sisterNode then k else 0)"
    and emp: "D = {#} \<Longrightarrow> k = 1"
  proof (cases "e0 \<in># C'")
    case True
    then obtain D where d: "C' = add_mset e0 D" by (meson mset_add)
    then have "D \<subseteq># M'" using C' by simp
    moreover have "\<And>v. degreeIn C' v = degreeIn D v + (if v = splitNode \<or> v = sisterNode then 1 else 0)"
      using d e0 ne by auto
    ultimately show ?thesis using that [of D 1] by simp
  next
    case False
    then have "C' \<subseteq># M'" using C'
      by (metis diff_single_trivial subset_eq_diff_conv add_mset_add_single)
    then show ?thesis using that [of C' 0] C' by simp
  qed
  show "\<exists>v. degreeIn C' v = 1"
  proof (cases "D = {#}")
    case True
    then have "degreeIn C' splitNode = 1" using deg [of splitNode] emp by simp
    then show ?thesis by blast
  next
    case False
    let ?K = "image_mset unordered (image_mset (contractNode splitNode sisterNode) D)"
    have "?K \<subseteq># image_mset unordered M"
      using D eq by (metis image_mset_subseteq_mono)
    then obtain C where C: "C \<subseteq># M" "?K = image_mset unordered C"
      using subset_image_mset by blast
    have "size C = size D" using C(2) by (metis size_image_mset)
    then have "C \<noteq> {#}" using False by auto
    then obtain v where v: "degreeIn C v = 1" using f C(1) unfolding forestEdges_def by blast
    have "degreeIn C v = degreeIn ?K v" using C(2) by simp
    then have c: "degreeIn (image_mset (contractNode splitNode sisterNode) D) v = 1"
      using v by simp
    then have vs: "v \<noteq> sisterNode" using degreeIn_contract [OF ne, of D v] by auto
    show ?thesis
    proof (cases "v = splitNode")
      case False
      then have "degreeIn D v = 1" using c vs degreeIn_contract [OF ne, of D v] by simp
      then have "degreeIn C' v = 1" using deg [of v] False vs by simp
      then show ?thesis by blast
    next
      case True
      then have s: "degreeIn D splitNode + degreeIn D sisterNode = 1"
        using c degreeIn_contract [OF ne, of D v] ne by simp
      have "degreeIn C' splitNode = 1 \<or> degreeIn C' sisterNode = 1"
        using s k deg [of splitNode] deg [of sisterNode] by (cases "k = 0") auto
      then show ?thesis by blast
    qed
  qed
qed

lemma image_mset_pointwise:
  "(\<And>x. x \<in> set xs \<Longrightarrow> g (f' x) = h (f x))
     \<Longrightarrow> image_mset g (mset (map f' xs)) = image_mset h (mset (map f xs))"
  by (induction xs) simp_all

text \<open>
  The graph state is well formed for the boundary \<open>(nR, nC)\<close>: no edge slot is free, the
  graph has one edge per processed line, the end nodes of every edge are nodes of the graph,
  and every processed row and column is mapped to an edge of the graph.
\<close>

definition graphStateOk :: "graphic_state \<Rightarrow> nat \<Rightarrow> nat \<Rightarrow> bool" where
  "graphStateOk st nR nC \<longleftrightarrow>
     graphFreeEdges (stGraph st) = []
     \<and> length (graphEdges (stGraph st)) = nR + nC
     \<and> nR \<le> length (stRowEdges st) \<and> nC \<le> length (stColumnEdges st)
     \<and> (\<forall>e \<in> {0..<length (graphEdges (stGraph st))}.
           case graphEdges (stGraph st) ! e of
             None \<Rightarrow> False
           | Some (u, v) \<Rightarrow> u < graphNumNodes (stGraph st) \<and> v < graphNumNodes (stGraph st))
     \<and> (\<forall>r \<in> {0..<nR}. case stRowEdges st ! r of
                            None \<Rightarrow> False | Some e \<Rightarrow> e < length (graphEdges (stGraph st)))
     \<and> (\<forall>c \<in> {0..<nC}. case stColumnEdges st ! c of
                            None \<Rightarrow> False | Some e \<Rightarrow> e < length (graphEdges (stGraph st)))"

text \<open>
  Modelled from the spec: invariant I1, the row-edges form a spanning tree of the current
  node set. The row-edges of the processed rows hold no cycle and there is one node more
  than there are rows; an acyclic set of \<open>n - 1\<close> edges on \<open>n\<close> nodes is a spanning tree.
\<close>

definition invariantI1 :: "graphic_state \<Rightarrow> nat \<Rightarrow> bool" where
  "invariantI1 st nR \<longleftrightarrow>
     (\<exists>E. touchedEdges st [0..<nR] = Some E \<and> forestEdges (mset E)
          \<and> graphNumNodes (stGraph st) = nR + 1)"

text \<open>
  Modelled from the spec: invariant I2, the column-edges are exactly the non-tree edges. An
  edge of the graph is the edge of a processed column if and only if it is not the edge of a
  processed row.
\<close>

definition invariantI2 :: "graphic_state \<Rightarrow> nat \<Rightarrow> nat \<Rightarrow> bool" where
  "invariantI2 st nR nC \<longleftrightarrow>
     (\<forall>e \<in> {0..<length (graphEdges (stGraph st))}.
        (\<exists>c \<in> {0..<nC}. stColumnEdges st ! c = Some e) \<longleftrightarrow> \<not> (\<exists>r \<in> {0..<nR}. stRowEdges st ! r = Some e))"

text \<open>The end nodes of the row-edge of row \<open>r\<close>.\<close>

definition rowEnds :: "graphic_state \<Rightarrow> nat \<Rightarrow> nat \<times> nat" where
  "rowEnds st r = the (graphEdges (stGraph st) ! the (stRowEdges st ! r))"

lemma graphStateOk_edge:
  assumes "graphStateOk st nR nC" and "e < length (graphEdges (stGraph st))"
  shows "\<exists>u v. graphEdges (stGraph st) ! e = Some (u, v) \<and> u < graphNumNodes (stGraph st)
        \<and> v < graphNumNodes (stGraph st)"
proof -
  have "\<forall>e \<in> {0..<length (graphEdges (stGraph st))}.
           case graphEdges (stGraph st) ! e of
             None \<Rightarrow> False
           | Some (u, v) \<Rightarrow> u < graphNumNodes (stGraph st) \<and> v < graphNumNodes (stGraph st)"
    using assms(1) unfolding graphStateOk_def by blast
  then have "case graphEdges (stGraph st) ! e of
             None \<Rightarrow> False
           | Some (u, v) \<Rightarrow> u < graphNumNodes (stGraph st) \<and> v < graphNumNodes (stGraph st)"
    using assms(2) by simp
  then show ?thesis by (cases "graphEdges (stGraph st) ! e") auto
qed

lemma graphStateOk_row:
  assumes "graphStateOk st nR nC" and "r < nR"
  shows "\<exists>e u v. r < length (stRowEdges st) \<and> stRowEdges st ! r = Some e \<and> e < length (graphEdges (stGraph st))
        \<and> graphEdges (stGraph st) ! e = Some (u, v) \<and> u < graphNumNodes (stGraph st)
        \<and> v < graphNumNodes (stGraph st)"
proof -
  have len: "nR \<le> length (stRowEdges st)" using assms(1) unfolding graphStateOk_def by blast
  have "\<forall>r \<in> {0..<nR}. case stRowEdges st ! r of
                            None \<Rightarrow> False | Some e \<Rightarrow> e < length (graphEdges (stGraph st))"
    using assms(1) unfolding graphStateOk_def by blast
  then have "case stRowEdges st ! r of
                            None \<Rightarrow> False | Some e \<Rightarrow> e < length (graphEdges (stGraph st))"
    using assms(2) by simp
  then obtain e where e: "stRowEdges st ! r = Some e" "e < length (graphEdges (stGraph st))"
    by (cases "stRowEdges st ! r") auto
  show ?thesis using graphStateOk_edge [OF assms(1) e(2)] e len assms(2) by auto
qed

lemma graphStateOk_column:
  assumes "graphStateOk st nR nC" and "c < nC"
  shows "\<exists>e u v. c < length (stColumnEdges st) \<and> stColumnEdges st ! c = Some e \<and> e < length (graphEdges (stGraph st))
        \<and> graphEdges (stGraph st) ! e = Some (u, v) \<and> u < graphNumNodes (stGraph st)
        \<and> v < graphNumNodes (stGraph st)"
proof -
  have len: "nC \<le> length (stColumnEdges st)" using assms(1) unfolding graphStateOk_def by blast
  have "\<forall>c \<in> {0..<nC}. case stColumnEdges st ! c of
                            None \<Rightarrow> False | Some e \<Rightarrow> e < length (graphEdges (stGraph st))"
    using assms(1) unfolding graphStateOk_def by blast
  then have "case stColumnEdges st ! c of
                            None \<Rightarrow> False | Some e \<Rightarrow> e < length (graphEdges (stGraph st))"
    using assms(2) by simp
  then obtain e where e: "stColumnEdges st ! c = Some e" "e < length (graphEdges (stGraph st))"
    by (cases "stColumnEdges st ! c") auto
  show ?thesis using graphStateOk_edge [OF assms(1) e(2)] e len assms(2) by auto
qed

lemma touchedEdges_rowEnds:
  assumes "graphStateOk st nR nC" and "set rows \<subseteq> {0..<nR}"
  shows "touchedEdges st rows = Some (map (rowEnds st) rows)"
  using assms(2)
proof (induction rows)
  case Nil
  then show ?case by simp
next
  case (Cons r rows)
  then have r: "r < nR" by simp
  from graphStateOk_row [OF assms(1) r] obtain e u v where
    "r < length (stRowEdges st)" "stRowEdges st ! r = Some e" "e < length (graphEdges (stGraph st))"
    "graphEdges (stGraph st) ! e = Some (u, v)"
    by blast
  then show ?case using Cons
    by (simp add: readEdge_def CMRgraphEdgeUV_def rowEnds_def)
qed

lemma invariantI1_rowEnds:
  assumes "graphStateOk st nR nC"
  shows "invariantI1 st nR \<longleftrightarrow>
     forestEdges (mset (map (rowEnds st) [0..<nR])) \<and> graphNumNodes (stGraph st) = nR + 1"
  unfolding invariantI1_def using touchedEdges_rowEnds [OF assms, of "[0..<nR]"] by auto

lemma graphStateOk_length: "graphStateOk st nR nC \<Longrightarrow> length (graphEdges (stGraph st)) = nR + nC"
  unfolding graphStateOk_def by blast

lemma graphStateOk_free: "graphStateOk st nR nC \<Longrightarrow> graphFreeEdges (stGraph st) = []"
  unfolding graphStateOk_def by blast

lemma extend_ok_I2:
  assumes ok: "graphStateOk st nR nC" and i2: "invariantI2 st nR nC"
    and le: "nR \<le> nR'" "nC \<le> nC'"
    and free: "graphFreeEdges (stGraph st') = []"
    and len: "length (graphEdges (stGraph st')) = nR' + nC'"
    and ends: "\<And>e. e < nR' + nC' \<Longrightarrow> \<exists>u v. graphEdges (stGraph st') ! e = Some (u, v)
                  \<and> u < graphNumNodes (stGraph st') \<and> v < graphNumNodes (stGraph st')"
    and rl: "nR' \<le> length (stRowEdges st')" "nC' \<le> length (stColumnEdges st')"
    and rold: "\<And>r. r < nR \<Longrightarrow> stRowEdges st' ! r = stRowEdges st ! r"
    and cold: "\<And>c. c < nC \<Longrightarrow> stColumnEdges st' ! c = stColumnEdges st ! c"
    and rnew: "\<And>r. nR \<le> r \<Longrightarrow> r < nR' \<Longrightarrow> \<exists>e. stRowEdges st' ! r = Some e \<and> nR + nC \<le> e \<and> e < nR' + nC'"
    and cnew: "\<And>c. nC \<le> c \<Longrightarrow> c < nC' \<Longrightarrow> \<exists>e. stColumnEdges st' ! c = Some e \<and> nR + nC \<le> e \<and> e < nR' + nC'"
    and xor: "\<And>e. nR + nC \<le> e \<Longrightarrow> e < nR' + nC' \<Longrightarrow>
                (\<exists>c. nC \<le> c \<and> c < nC' \<and> stColumnEdges st' ! c = Some e)
                  \<longleftrightarrow> \<not> (\<exists>r. nR \<le> r \<and> r < nR' \<and> stRowEdges st' ! r = Some e)"
  shows "graphStateOk st' nR' nC' \<and> invariantI2 st' nR' nC'"
proof
  have rows: "\<exists>e. stRowEdges st' ! r = Some e \<and> e < nR' + nC'" if "r < nR'" for r
  proof (cases "r < nR")
    case True
    from graphStateOk_row [OF ok True] obtain e where "stRowEdges st ! r = Some e"
      "e < length (graphEdges (stGraph st))" by blast
    then show ?thesis using rold [OF True] graphStateOk_length [OF ok] le by auto
  next
    case False
    then show ?thesis using rnew [of r] that by auto
  qed
  have cols: "\<exists>e. stColumnEdges st' ! c = Some e \<and> e < nR' + nC'" if "c < nC'" for c
  proof (cases "c < nC")
    case True
    from graphStateOk_column [OF ok True] obtain e where "stColumnEdges st ! c = Some e"
      "e < length (graphEdges (stGraph st))" by blast
    then show ?thesis using cold [OF True] graphStateOk_length [OF ok] le by auto
  next
    case False
    then show ?thesis using cnew [of c] that by auto
  qed
  show "graphStateOk st' nR' nC'"
    unfolding graphStateOk_def
  proof (intro conjI ballI)
    show "graphFreeEdges (stGraph st') = []" by (rule free)
    show "length (graphEdges (stGraph st')) = nR' + nC'" by (rule len)
    show "nR' \<le> length (stRowEdges st')" by (rule rl)
    show "nC' \<le> length (stColumnEdges st')" by (rule rl)
  next
    fix e assume "e \<in> {0..<length (graphEdges (stGraph st'))}"
    then have "e < nR' + nC'" using len by simp
    from ends [OF this] show "case graphEdges (stGraph st') ! e of None \<Rightarrow> False
         | Some (u, v) \<Rightarrow> u < graphNumNodes (stGraph st') \<and> v < graphNumNodes (stGraph st')"
      by auto
  next
    fix r assume "r \<in> {0..<nR'}"
    then have "r < nR'" by simp
    from rows [OF this] show "case stRowEdges st' ! r of None \<Rightarrow> False
         | Some e \<Rightarrow> e < length (graphEdges (stGraph st'))"
      using len by auto
  next
    fix c assume "c \<in> {0..<nC'}"
    then have "c < nC'" by simp
    from cols [OF this] show "case stColumnEdges st' ! c of None \<Rightarrow> False
         | Some e \<Rightarrow> e < length (graphEdges (stGraph st'))"
      using len by auto
  qed
  show "invariantI2 st' nR' nC'"
    unfolding invariantI2_def
  proof
    fix e assume "e \<in> {0..<length (graphEdges (stGraph st'))}"
    then have e: "e < nR' + nC'" using len by simp
    show "(\<exists>c \<in> {0..<nC'}. stColumnEdges st' ! c = Some e)
            \<longleftrightarrow> \<not> (\<exists>r \<in> {0..<nR'}. stRowEdges st' ! r = Some e)"
    proof (cases "e < nR + nC")
      case True
      have c: "(\<exists>c \<in> {0..<nC'}. stColumnEdges st' ! c = Some e)
                 \<longleftrightarrow> (\<exists>c \<in> {0..<nC}. stColumnEdges st ! c = Some e)"
      proof
        assume "\<exists>c \<in> {0..<nC'}. stColumnEdges st' ! c = Some e"
        then obtain c where c: "c < nC'" "stColumnEdges st' ! c = Some e" by auto
        have "c < nC"
        proof (rule ccontr)
          assume "\<not> c < nC"
          then show False using cnew [of c] c True by auto
        qed
        then show "\<exists>c \<in> {0..<nC}. stColumnEdges st ! c = Some e" using cold [of c] c by auto
      next
        assume "\<exists>c \<in> {0..<nC}. stColumnEdges st ! c = Some e"
        then obtain c where "c < nC" "stColumnEdges st ! c = Some e" by auto
        then show "\<exists>c \<in> {0..<nC'}. stColumnEdges st' ! c = Some e"
          using cold [of c] le by (intro bexI [of _ c]) auto
      qed
      have r: "(\<exists>r \<in> {0..<nR'}. stRowEdges st' ! r = Some e)
                 \<longleftrightarrow> (\<exists>r \<in> {0..<nR}. stRowEdges st ! r = Some e)"
      proof
        assume "\<exists>r \<in> {0..<nR'}. stRowEdges st' ! r = Some e"
        then obtain r where r: "r < nR'" "stRowEdges st' ! r = Some e" by auto
        have "r < nR"
        proof (rule ccontr)
          assume "\<not> r < nR"
          then show False using rnew [of r] r True by auto
        qed
        then show "\<exists>r \<in> {0..<nR}. stRowEdges st ! r = Some e" using rold [of r] r by auto
      next
        assume "\<exists>r \<in> {0..<nR}. stRowEdges st ! r = Some e"
        then obtain r where "r < nR" "stRowEdges st ! r = Some e" by auto
        then show "\<exists>r \<in> {0..<nR'}. stRowEdges st' ! r = Some e"
          using rold [of r] le by (intro bexI [of _ r]) auto
      qed
      have "e \<in> {0..<length (graphEdges (stGraph st))}"
        using True graphStateOk_length [OF ok] by simp
      then have "(\<exists>c \<in> {0..<nC}. stColumnEdges st ! c = Some e)
            \<longleftrightarrow> \<not> (\<exists>r \<in> {0..<nR}. stRowEdges st ! r = Some e)"
        using i2 unfolding invariantI2_def by blast
      then show ?thesis unfolding c r .
    next
      case False
      then have ge: "nR + nC \<le> e" by simp
      have c: "(\<exists>c \<in> {0..<nC'}. stColumnEdges st' ! c = Some e)
                 \<longleftrightarrow> (\<exists>c. nC \<le> c \<and> c < nC' \<and> stColumnEdges st' ! c = Some e)"
      proof
        assume "\<exists>c \<in> {0..<nC'}. stColumnEdges st' ! c = Some e"
        then obtain c where c: "c < nC'" "stColumnEdges st' ! c = Some e" by auto
        have "nC \<le> c"
        proof (rule ccontr)
          assume "\<not> nC \<le> c"
          then have lt: "c < nC" by simp
          from graphStateOk_column [OF ok lt] obtain e' where "stColumnEdges st ! c = Some e'"
            "e' < length (graphEdges (stGraph st))" by blast
          then show False using cold [OF lt] c ge graphStateOk_length [OF ok] by simp
        qed
        then show "\<exists>c. nC \<le> c \<and> c < nC' \<and> stColumnEdges st' ! c = Some e" using c by blast
      next
        assume "\<exists>c. nC \<le> c \<and> c < nC' \<and> stColumnEdges st' ! c = Some e"
        then show "\<exists>c \<in> {0..<nC'}. stColumnEdges st' ! c = Some e" by auto
      qed
      have r: "(\<exists>r \<in> {0..<nR'}. stRowEdges st' ! r = Some e)
                 \<longleftrightarrow> (\<exists>r. nR \<le> r \<and> r < nR' \<and> stRowEdges st' ! r = Some e)"
      proof
        assume "\<exists>r \<in> {0..<nR'}. stRowEdges st' ! r = Some e"
        then obtain r where r: "r < nR'" "stRowEdges st' ! r = Some e" by auto
        have "nR \<le> r"
        proof (rule ccontr)
          assume "\<not> nR \<le> r"
          then have lt: "r < nR" by simp
          from graphStateOk_row [OF ok lt] obtain e' where "stRowEdges st ! r = Some e'"
            "e' < length (graphEdges (stGraph st))" by blast
          then show False using rold [OF lt] r ge graphStateOk_length [OF ok] by simp
        qed
        then show "\<exists>r. nR \<le> r \<and> r < nR' \<and> stRowEdges st' ! r = Some e" using r by blast
      next
        assume "\<exists>r. nR \<le> r \<and> r < nR' \<and> stRowEdges st' ! r = Some e"
        then show "\<exists>r \<in> {0..<nR'}. stRowEdges st' ! r = Some e" by auto
      qed
      show ?thesis unfolding c r using xor [OF ge e] .
    qed
  qed
qed

lemma CMRgraphEdgeUV_Inr:
  "CMRgraphEdgeUV g e = Inr uv \<longleftrightarrow> e < length (graphEdges g) \<and> graphEdges g ! e = Some uv"
  unfolding CMRgraphEdgeUV_def by (auto split: option.splits)

lemma checkEdgesAdjacent_Some:
  assumes "checkEdgesAdjacent g e f = Inr (Some (common, other1, other2))"
  shows "\<exists>eU eV fU fV. e < length (graphEdges g) \<and> graphEdges g ! e = Some (eU, eV)
           \<and> f < length (graphEdges g) \<and> graphEdges g ! f = Some (fU, fV)
           \<and> ((common, other1) = (eU, eV) \<or> (common, other1) = (eV, eU))
           \<and> ((common, other2) = (fU, fV) \<or> (common, other2) = (fV, fU))"
  using assms unfolding checkEdgesAdjacent_def
  by (auto simp: ebind_eq_Inr CMRgraphEdgeUV_Inr split: if_splits)

lemma CMRgraphAddEdge_fresh:
  "graphFreeEdges g = [] \<Longrightarrow>
     CMRgraphAddEdge g u v = (g\<lparr>graphEdges := graphEdges g @ [Some (u, v)]\<rparr>, length (graphEdges g))"
  unfolding CMRgraphAddEdge_def by simp

lemma CMRgraphAddEdge_deleted:
  "CMRgraphAddEdge (CMRgraphDeleteEdge g e) u v = (g\<lparr>graphEdges := (graphEdges g)[e := Some (u, v)]\<rparr>, e)"
  unfolding CMRgraphAddEdge_def CMRgraphDeleteEdge_def by (cases g) simp

lemma writeEdge_Inr: "writeEdge edges i e = Inr edges' \<longleftrightarrow> i < length edges \<and> edges' = edges[i := Some e]"
  unfolding writeEdge_def by auto

lemma addToGraph1Row1Column_shape:
  assumes "addToGraph1Row1Column st nR nC rowParallel columnParallel = Inr (st', True)"
    and "graphFreeEdges (stGraph st) = []"
  shows "\<exists>rowEdge columnEdge common rowOther columnOther.
           checkEdgesAdjacent (stGraph st) rowEdge columnEdge = Inr (Some (common, rowOther, columnOther))
           \<and> nR < length (stRowEdges st) \<and> nC < length (stColumnEdges st)
           \<and> stGraph st' = \<lparr>graphNumNodes = Suc (graphNumNodes (stGraph st)),
                 graphEdges = (graphEdges (stGraph st))[rowEdge := Some (rowOther, graphNumNodes (stGraph st))]
                    @ [Some (graphNumNodes (stGraph st), common),
                       Some (graphNumNodes (stGraph st), columnOther)],
                 graphFreeEdges = []\<rparr>
           \<and> stRowEdges st' = (stRowEdges st)[nR := Some (length (graphEdges (stGraph st)))]
           \<and> stColumnEdges st' = (stColumnEdges st)[nC := Some (Suc (length (graphEdges (stGraph st))))]"
  using assms unfolding addToGraph1Row1Column_def
  apply (clarsimp simp: ebind_eq_Inr Let_def split_def CMRgraphAddNode_def CMRgraphAddEdge_deleted
        CMRgraphAddEdge_fresh writeEdge_Inr
      split: if_splits option.splits)
  apply (cases "stGraph st")
  apply auto
  done

lemma forest_split_rows:
  assumes f: "forestEdges (add_mset x (mset (map f [0..<n])))"
    and old: "\<And>r. r < n \<Longrightarrow> unordered (contractNode splitNode sisterNode (f' r)) = unordered (f r)"
    and x: "contractNode splitNode sisterNode x' = x"
    and ne: "splitNode \<noteq> sisterNode"
    and e0: "e0 = (splitNode, sisterNode) \<or> e0 = (sisterNode, splitNode)"
  shows "forestEdges (add_mset e0 (add_mset x' (mset (map f' [0..<n]))))"
proof -
  have "image_mset (\<lambda>e. unordered (contractNode splitNode sisterNode e)) (mset (map f' [0..<n]))
          = image_mset unordered (mset (map f [0..<n]))"
    by (rule image_mset_pointwise) (simp add: old)
  then have "image_mset unordered (image_mset (contractNode splitNode sisterNode)
                 (add_mset x' (mset (map f' [0..<n]))))
          = image_mset unordered (add_mset x (mset (map f [0..<n])))"
    using x by (simp add: multiset.map_comp comp_def)
  from forest_vertex_split [OF f this ne e0] show ?thesis .
qed

lemma forest_split_rows0:
  assumes f: "forestEdges (mset (map f [0..<n]))"
    and old: "\<And>r. r < n \<Longrightarrow> unordered (contractNode splitNode sisterNode (f' r)) = unordered (f r)"
    and ne: "splitNode \<noteq> sisterNode"
    and e0: "e0 = (splitNode, sisterNode) \<or> e0 = (sisterNode, splitNode)"
  shows "forestEdges (add_mset e0 (mset (map f' [0..<n])))"
proof -
  have "image_mset (\<lambda>e. unordered (contractNode splitNode sisterNode e)) (mset (map f' [0..<n]))
          = image_mset unordered (mset (map f [0..<n]))"
    by (rule image_mset_pointwise) (simp add: old)
  then have "image_mset unordered (image_mset (contractNode splitNode sisterNode)
                 (mset (map f' [0..<n])))
          = image_mset unordered (mset (map f [0..<n]))"
    by (simp add: multiset.map_comp comp_def)
  from forest_vertex_split [OF f this ne e0] show ?thesis .
qed

lemma invariantI1_split:
  assumes ok: "graphStateOk st nR nC" and ok': "graphStateOk st' (Suc nR) nC'"
    and i1: "invariantI1 st nR"
    and nodes: "graphNumNodes (stGraph st') = Suc (graphNumNodes (stGraph st))"
    and old: "\<And>r. r < nR \<Longrightarrow> unordered (contractNode splitNode sisterNode (rowEnds st' r))
                                = unordered (rowEnds st r)"
    and new: "rowEnds st' nR = (splitNode, sisterNode) \<or> rowEnds st' nR = (sisterNode, splitNode)"
    and ne: "splitNode \<noteq> sisterNode"
  shows "invariantI1 st' (Suc nR)"
proof -
  have f: "forestEdges (mset (map (rowEnds st) [0..<nR]))" and n: "graphNumNodes (stGraph st) = nR + 1"
    using i1 invariantI1_rowEnds [OF ok] by simp_all
  have "forestEdges (add_mset (rowEnds st' nR) (mset (map (rowEnds st') [0..<nR])))"
    by (rule forest_split_rows0 [OF f old ne new])
  then have "forestEdges (mset (map (rowEnds st') [0..<Suc nR]))" by simp
  then show ?thesis using invariantI1_rowEnds [OF ok'] nodes n by simp
qed

lemma invariantI1_same:
  assumes ok: "graphStateOk st nR nC" and ok': "graphStateOk st' nR nC'"
    and i1: "invariantI1 st nR"
    and nodes: "graphNumNodes (stGraph st') = graphNumNodes (stGraph st)"
    and old: "\<And>r. r < nR \<Longrightarrow> rowEnds st' r = rowEnds st r"
  shows "invariantI1 st' nR"
proof -
  have f: "forestEdges (mset (map (rowEnds st) [0..<nR]))" and n: "graphNumNodes (stGraph st) = nR + 1"
    using i1 invariantI1_rowEnds [OF ok] by blast+
  have eq: "map (rowEnds st') [0..<nR] = map (rowEnds st) [0..<nR]"
    by (rule map_cong) (simp_all add: old)
  have "forestEdges (mset (map (rowEnds st') [0..<nR]))" unfolding eq by (rule f)
  moreover have "graphNumNodes (stGraph st') = nR + 1" using nodes n by simp
  ultimately show ?thesis using invariantI1_rowEnds [OF ok'] by blast
qed

lemma contractNode_id: "fst e \<noteq> sisterNode \<Longrightarrow> snd e \<noteq> sisterNode \<Longrightarrow> contractNode splitNode sisterNode e = e"
  by (simp add: contractNode_def)

lemma unordered_swap: "unordered (a, b) = unordered (b, a)"
  by (simp add: unordered_def min.commute max.commute)

lemma addToGraph1Row1Column_invariants:
  assumes run: "addToGraph1Row1Column st nR nC rowParallel columnParallel = Inr (st', True)"
    and ok: "graphStateOk st nR nC" and i1: "invariantI1 st nR" and i2: "invariantI2 st nR nC"
  shows "graphStateOk st' (Suc nR) (Suc nC) \<and> invariantI1 st' (Suc nR) \<and> invariantI2 st' (Suc nR) (Suc nC)"
proof -
  let ?n = "graphNumNodes (stGraph st)"
  let ?es = "graphEdges (stGraph st)"
  have L: "length ?es = nR + nC" by (rule graphStateOk_length [OF ok])
  from addToGraph1Row1Column_shape [OF run graphStateOk_free [OF ok]]
  obtain rowEdge columnEdge common rowOther columnOther where
    adj: "checkEdgesAdjacent (stGraph st) rowEdge columnEdge = Inr (Some (common, rowOther, columnOther))"
    and b: "nR < length (stRowEdges st)" "nC < length (stColumnEdges st)"
    and g: "stGraph st' = \<lparr>graphNumNodes = Suc ?n,
                 graphEdges = ?es[rowEdge := Some (rowOther, ?n)] @ [Some (?n, common), Some (?n, columnOther)],
                 graphFreeEdges = []\<rparr>"
    and r: "stRowEdges st' = (stRowEdges st)[nR := Some (length ?es)]"
    and c: "stColumnEdges st' = (stColumnEdges st)[nC := Some (Suc (length ?es))]"
    by blast
  from checkEdgesAdjacent_Some [OF adj] obtain eU eV fU fV where
    e: "rowEdge < length ?es" "?es ! rowEdge = Some (eU, eV)"
    and f: "columnEdge < length ?es" "?es ! columnEdge = Some (fU, fV)"
    and ce: "(common, rowOther) = (eU, eV) \<or> (common, rowOther) = (eV, eU)"
    and cf: "(common, columnOther) = (fU, fV) \<or> (common, columnOther) = (fV, fU)"
    by blast
  have eb: "eU < ?n" "eV < ?n" using graphStateOk_edge [OF ok e(1)] e(2) by auto
  have fb: "fU < ?n" "fV < ?n" using graphStateOk_edge [OF ok f(1)] f(2) by auto
  have nb: "common < ?n" "rowOther < ?n" "columnOther < ?n" using ce cf eb fb by auto
  have ends: "\<exists>u v. graphEdges (stGraph st') ! e = Some (u, v)
                  \<and> u < graphNumNodes (stGraph st') \<and> v < graphNumNodes (stGraph st')"
    if "e < Suc nR + Suc nC" for e
  proof (cases "e < length ?es")
    case True
    show ?thesis
    proof (cases "e = rowEdge")
      case True
      then show ?thesis using e(1) nb unfolding g by (simp add: nth_append)
    next
      case False
      then show ?thesis using True graphStateOk_edge [OF ok True] unfolding g
        by (auto simp: nth_append less_Suc_eq)
    qed
  next
    case False
    then have "e = length ?es \<or> e = Suc (length ?es)" using that L by auto
    then show ?thesis using nb unfolding g by (auto simp: nth_append)
  qed
  have okI2: "graphStateOk st' (Suc nR) (Suc nC) \<and> invariantI2 st' (Suc nR) (Suc nC)"
  proof (rule extend_ok_I2 [OF ok i2])
    show "nR \<le> Suc nR" "nC \<le> Suc nC" by simp_all
    show "graphFreeEdges (stGraph st') = []" unfolding g by simp
    show "length (graphEdges (stGraph st')) = Suc nR + Suc nC" unfolding g using L by simp
    show "\<And>e. e < Suc nR + Suc nC \<Longrightarrow> \<exists>u v. graphEdges (stGraph st') ! e = Some (u, v)
                  \<and> u < graphNumNodes (stGraph st') \<and> v < graphNumNodes (stGraph st')"
      by (rule ends)
    show "Suc nR \<le> length (stRowEdges st')" "Suc nC \<le> length (stColumnEdges st')"
      using b unfolding r c by simp_all
    show "\<And>r. r < nR \<Longrightarrow> stRowEdges st' ! r = stRowEdges st ! r" unfolding r by simp
    show "\<And>c. c < nC \<Longrightarrow> stColumnEdges st' ! c = stColumnEdges st ! c" unfolding c by simp
    show "\<And>r. nR \<le> r \<Longrightarrow> r < Suc nR \<Longrightarrow>
            \<exists>e. stRowEdges st' ! r = Some e \<and> nR + nC \<le> e \<and> e < Suc nR + Suc nC"
      using b L unfolding r by (auto simp: less_Suc_eq)
    show "\<And>c. nC \<le> c \<Longrightarrow> c < Suc nC \<Longrightarrow>
            \<exists>e. stColumnEdges st' ! c = Some e \<and> nR + nC \<le> e \<and> e < Suc nR + Suc nC"
      using b L unfolding c by (auto simp: less_Suc_eq)
    show "\<And>e. nR + nC \<le> e \<Longrightarrow> e < Suc nR + Suc nC \<Longrightarrow>
                (\<exists>c. nC \<le> c \<and> c < Suc nC \<and> stColumnEdges st' ! c = Some e)
                  \<longleftrightarrow> \<not> (\<exists>r. nR \<le> r \<and> r < Suc nR \<and> stRowEdges st' ! r = Some e)"
      using b L unfolding r c by (auto simp: less_Suc_eq)
  qed
  then have ok': "graphStateOk st' (Suc nR) (Suc nC)" by simp
  have new: "rowEnds st' nR = (?n, common)"
    using b unfolding rowEnds_def r g by (simp add: nth_append)
  have old: "unordered (contractNode common ?n (rowEnds st' r)) = unordered (rowEnds st r)" if "r < nR" for r
  proof -
    from graphStateOk_row [OF ok that] obtain e' u v where
      r': "stRowEdges st ! r = Some e'" "e' < length ?es" "?es ! e' = Some (u, v)" "u < ?n" "v < ?n"
      by blast
    have old': "rowEnds st r = (u, v)" unfolding rowEnds_def using r' by simp
    show ?thesis
    proof (cases "e' = rowEdge")
      case True
      then have "rowEnds st' r = (rowOther, ?n)"
        unfolding rowEnds_def r g using that r' e(1) by (simp add: nth_append)
      moreover have "(u, v) = (eU, eV)" using r'(3) e(2) True by simp
      ultimately show ?thesis using old' ce nb unordered_swap [of eU eV]
        by (auto simp: contractNode_def)
    next
      case False
      then have "rowEnds st' r = (u, v)"
        unfolding rowEnds_def r g using that r' by (simp add: nth_append)
      then show ?thesis using old' r'(4,5) by (simp add: contractNode_def)
    qed
  qed
  have "invariantI1 st' (Suc nR)"
    by (rule invariantI1_split [OF ok ok' i1 _ old]) (use new nb g in auto)
  then show ?thesis using okI2 by simp
qed

lemma addToGraph1Row2Columns_shape:
  assumes "addToGraph1Row2Columns st nR nC column1Parallel column2Parallel = Inr (st', True)"
    and "graphFreeEdges (stGraph st) = []"
  shows "\<exists>column1Edge column2Edge common other1 other2.
           checkEdgesAdjacent (stGraph st) column1Edge column2Edge = Inr (Some (common, other1, other2))
           \<and> nR < length (stRowEdges st) \<and> Suc nC < length (stColumnEdges st)
           \<and> stGraph st' = \<lparr>graphNumNodes = Suc (graphNumNodes (stGraph st)),
                 graphEdges = graphEdges (stGraph st)
                    @ [Some (other1, graphNumNodes (stGraph st)),
                       Some (other2, graphNumNodes (stGraph st)),
                       Some (common, graphNumNodes (stGraph st))],
                 graphFreeEdges = []\<rparr>
           \<and> stRowEdges st' = (stRowEdges st)[nR := Some (Suc (Suc (length (graphEdges (stGraph st)))))]
           \<and> stColumnEdges st' = (stColumnEdges st)[nC := Some (length (graphEdges (stGraph st))),
                                      Suc nC := Some (Suc (length (graphEdges (stGraph st))))]"
  using assms unfolding addToGraph1Row2Columns_def
  apply (clarsimp simp: ebind_eq_Inr Let_def split_def CMRgraphAddNode_def CMRgraphAddEdge_deleted
        CMRgraphAddEdge_fresh writeEdge_Inr
      split: if_splits option.splits)
  apply (cases "stGraph st")
  apply auto
  done

lemma addToGraph1Row2Columns_invariants:
  assumes run: "addToGraph1Row2Columns st nR nC column1Parallel column2Parallel = Inr (st', True)"
    and ok: "graphStateOk st nR nC" and i1: "invariantI1 st nR" and i2: "invariantI2 st nR nC"
  shows "graphStateOk st' (Suc nR) (Suc (Suc nC)) \<and> invariantI1 st' (Suc nR)
           \<and> invariantI2 st' (Suc nR) (Suc (Suc nC))"
proof -
  let ?n = "graphNumNodes (stGraph st)"
  let ?es = "graphEdges (stGraph st)"
  have L: "length ?es = nR + nC" by (rule graphStateOk_length [OF ok])
  from addToGraph1Row2Columns_shape [OF run graphStateOk_free [OF ok]]
  obtain column1Edge column2Edge common other1 other2 where
    adj: "checkEdgesAdjacent (stGraph st) column1Edge column2Edge = Inr (Some (common, other1, other2))"
    and b: "nR < length (stRowEdges st)" "Suc nC < length (stColumnEdges st)"
    and g: "stGraph st' = \<lparr>graphNumNodes = Suc ?n,
                 graphEdges = ?es @ [Some (other1, ?n), Some (other2, ?n), Some (common, ?n)],
                 graphFreeEdges = []\<rparr>"
    and r: "stRowEdges st' = (stRowEdges st)[nR := Some (Suc (Suc (length ?es)))]"
    and c: "stColumnEdges st' = (stColumnEdges st)[nC := Some (length ?es), Suc nC := Some (Suc (length ?es))]"
    by blast
  from checkEdgesAdjacent_Some [OF adj] obtain eU eV fU fV where
    e: "column1Edge < length ?es" "?es ! column1Edge = Some (eU, eV)"
    and f: "column2Edge < length ?es" "?es ! column2Edge = Some (fU, fV)"
    and ce: "(common, other1) = (eU, eV) \<or> (common, other1) = (eV, eU)"
    and cf: "(common, other2) = (fU, fV) \<or> (common, other2) = (fV, fU)"
    by blast
  have eb: "eU < ?n" "eV < ?n" using graphStateOk_edge [OF ok e(1)] e(2) by auto
  have fb: "fU < ?n" "fV < ?n" using graphStateOk_edge [OF ok f(1)] f(2) by auto
  have nb: "common < ?n" "other1 < ?n" "other2 < ?n" using ce cf eb fb by auto
  have ends: "\<exists>u v. graphEdges (stGraph st') ! e = Some (u, v)
                  \<and> u < graphNumNodes (stGraph st') \<and> v < graphNumNodes (stGraph st')"
    if "e < Suc nR + Suc (Suc nC)" for e
  proof (cases "e < length ?es")
    case True
    then show ?thesis using graphStateOk_edge [OF ok True] unfolding g
      by (auto simp: nth_append less_Suc_eq)
  next
    case False
    then have "e = length ?es \<or> e = Suc (length ?es) \<or> e = Suc (Suc (length ?es))" using that L by auto
    then show ?thesis using nb unfolding g by (auto simp: nth_append)
  qed
  have okI2: "graphStateOk st' (Suc nR) (Suc (Suc nC)) \<and> invariantI2 st' (Suc nR) (Suc (Suc nC))"
  proof (rule extend_ok_I2 [OF ok i2])
    show "nR \<le> Suc nR" "nC \<le> Suc (Suc nC)" by simp_all
    show "graphFreeEdges (stGraph st') = []" unfolding g by simp
    show "length (graphEdges (stGraph st')) = Suc nR + Suc (Suc nC)" unfolding g using L by simp
    show "\<And>e. e < Suc nR + Suc (Suc nC) \<Longrightarrow> \<exists>u v. graphEdges (stGraph st') ! e = Some (u, v)
                  \<and> u < graphNumNodes (stGraph st') \<and> v < graphNumNodes (stGraph st')"
      by (rule ends)
    show "Suc nR \<le> length (stRowEdges st')" "Suc (Suc nC) \<le> length (stColumnEdges st')"
      using b unfolding r c by simp_all
    show "\<And>r. r < nR \<Longrightarrow> stRowEdges st' ! r = stRowEdges st ! r" unfolding r by simp
    show "\<And>c. c < nC \<Longrightarrow> stColumnEdges st' ! c = stColumnEdges st ! c" unfolding c by simp
    show "\<And>r. nR \<le> r \<Longrightarrow> r < Suc nR \<Longrightarrow>
            \<exists>e. stRowEdges st' ! r = Some e \<and> nR + nC \<le> e \<and> e < Suc nR + Suc (Suc nC)"
      using b L unfolding r by (auto simp: less_Suc_eq)
    show "\<And>c. nC \<le> c \<Longrightarrow> c < Suc (Suc nC) \<Longrightarrow>
            \<exists>e. stColumnEdges st' ! c = Some e \<and> nR + nC \<le> e \<and> e < Suc nR + Suc (Suc nC)"
      using b L unfolding c by (auto simp: less_Suc_eq nth_list_update)
    fix e assume e: "nR + nC \<le> e" "e < Suc nR + Suc (Suc nC)"
    have cn: "stColumnEdges st' ! nC = Some (length ?es)" "stColumnEdges st' ! Suc nC = Some (Suc (length ?es))"
      using b unfolding c by simp_all
    have rn: "stRowEdges st' ! nR = Some (Suc (Suc (length ?es)))"
      using b unfolding r by simp
    have cs: "(\<exists>c. nC \<le> c \<and> c < Suc (Suc nC) \<and> stColumnEdges st' ! c = Some e)
                \<longleftrightarrow> e = length ?es \<or> e = Suc (length ?es)"
    proof
      assume "\<exists>c. nC \<le> c \<and> c < Suc (Suc nC) \<and> stColumnEdges st' ! c = Some e"
      then obtain c' where c': "nC \<le> c'" "c' < Suc (Suc nC)" "stColumnEdges st' ! c' = Some e" by blast
      then have "c' = nC \<or> c' = Suc nC" by auto
      then show "e = length ?es \<or> e = Suc (length ?es)" using c'(3) cn by auto
    next
      assume "e = length ?es \<or> e = Suc (length ?es)"
      then show "\<exists>c. nC \<le> c \<and> c < Suc (Suc nC) \<and> stColumnEdges st' ! c = Some e"
      proof
        assume "e = length ?es"
        then show ?thesis using cn(1) by (intro exI [of _ nC]) simp
      next
        assume "e = Suc (length ?es)"
        then show ?thesis using cn(2) by (intro exI [of _ "Suc nC"]) simp
      qed
    qed
    have rs: "(\<exists>r. nR \<le> r \<and> r < Suc nR \<and> stRowEdges st' ! r = Some e)
                \<longleftrightarrow> e = Suc (Suc (length ?es))"
    proof
      assume "\<exists>r. nR \<le> r \<and> r < Suc nR \<and> stRowEdges st' ! r = Some e"
      then obtain r' where r': "nR \<le> r'" "r' < Suc nR" "stRowEdges st' ! r' = Some e" by blast
      then have "r' = nR" by auto
      then show "e = Suc (Suc (length ?es))" using r'(3) rn by auto
    next
      assume "e = Suc (Suc (length ?es))"
      then show "\<exists>r. nR \<le> r \<and> r < Suc nR \<and> stRowEdges st' ! r = Some e"
        using rn by (intro exI [of _ nR]) simp
    qed
    show "(\<exists>c. nC \<le> c \<and> c < Suc (Suc nC) \<and> stColumnEdges st' ! c = Some e)
                  \<longleftrightarrow> \<not> (\<exists>r. nR \<le> r \<and> r < Suc nR \<and> stRowEdges st' ! r = Some e)"
      unfolding cs rs using e L by auto
  qed
  then have ok': "graphStateOk st' (Suc nR) (Suc (Suc nC))" by simp
  have new: "rowEnds st' nR = (common, ?n)"
    using b unfolding rowEnds_def r g by (simp add: nth_append)
  have old: "unordered (contractNode common ?n (rowEnds st' r)) = unordered (rowEnds st r)" if "r < nR" for r
  proof -
    from graphStateOk_row [OF ok that] obtain e' u v where
      r': "stRowEdges st ! r = Some e'" "e' < length ?es" "?es ! e' = Some (u, v)" "u < ?n" "v < ?n"
      by blast
    have old': "rowEnds st r = (u, v)" unfolding rowEnds_def using r' by simp
    have "rowEnds st' r = (u, v)"
      unfolding rowEnds_def r g using that r' by (simp add: nth_append)
    then show ?thesis using old' r'(4,5) by (simp add: contractNode_def)
  qed
  have "invariantI1 st' (Suc nR)"
    by (rule invariantI1_split [OF ok ok' i1 _ old]) (use new nb g in auto)
  then show ?thesis using okI2 by simp
qed

lemma addToGraph1Column_leaves_members:
  assumes "addToGraph1Column_leaves nodeDegrees nodes (None, None) = (Some a, Some b)"
  shows "a \<in> set nodes \<and> b \<in> set nodes"
proof -
  let ?ls = "filter (\<lambda>v. nodeDegrees ! v = 1) nodes"
  from assms obtain rest where ls: "?ls = a # rest" and rest: "rest \<noteq> []" and b: "b = last rest"
    unfolding addToGraph1Column_leaves_filter by (auto split: list.splits if_splits)
  have "a \<in> set ?ls" using ls by simp
  moreover have "b \<in> set ?ls" using ls rest b by simp
  ultimately show ?thesis by auto
qed

lemma addToGraph1Column_shape:
  assumes run: "addToGraph1Column st nR nC nonzeroRows = Inr (st', True)"
    and free: "graphFreeEdges (stGraph st) = []"
  shows "\<exists>node0 node1. node0 < graphNumNodes (stGraph st) \<and> node1 < graphNumNodes (stGraph st)
           \<and> nC < length (stColumnEdges st)
           \<and> stGraph st' = \<lparr>graphNumNodes = graphNumNodes (stGraph st),
                 graphEdges = graphEdges (stGraph st) @ [Some (node0, node1)],
                 graphFreeEdges = []\<rparr>
           \<and> stRowEdges st' = stRowEdges st
           \<and> stColumnEdges st' = (stColumnEdges st)[nC := Some (length (graphEdges (stGraph st)))]"
proof -
  from run obtain nodeDegrees countLeaves where
    d: "addToGraph1Column_degrees st nonzeroRows (replicate (graphNumNodes (stGraph st)) 0, 0)
          = Inr (nodeDegrees, countLeaves)"
    and fin: "(if countLeaves = 2 then
            (case addToGraph1Column_leaves nodeDegrees (CMRgraphNodes (stGraph st)) (None, None) of
               (Some node0, Some node1) \<Rightarrow>
                 (let (g1, newColumnEdge) = CMRgraphAddEdge (stGraph st) node0 node1
                  in ebind (writeEdge (stColumnEdges st) nC newColumnEdge) (\<lambda>columnEdges'.
                       Inr (st\<lparr>stGraph := g1, stColumnEdges := columnEdges'\<rparr>, True)))
             | _ \<Rightarrow> Inl InvalidAccess)
          else Inr (st, False)) = Inr (st', True)"
    unfolding addToGraph1Column_def by (auto simp: ebind_eq_Inr split: if_splits)
  from fin have two: "countLeaves = 2" by (auto split: if_splits)
  obtain n0 n1 where lv: "addToGraph1Column_leaves nodeDegrees (CMRgraphNodes (stGraph st)) (None, None) = (n0, n1)"
    by (cases "addToGraph1Column_leaves nodeDegrees (CMRgraphNodes (stGraph st)) (None, None)")
  from fin two lv obtain node0 node1 where n: "n0 = Some node0" "n1 = Some node1"
    by (cases n0; cases n1) auto
  from addToGraph1Column_leaves_members [OF lv [unfolded n]]
  have nb: "node0 < graphNumNodes (stGraph st)" "node1 < graphNumNodes (stGraph st)"
    by (simp_all add: CMRgraphNodes_def)
  from fin two lv n have w: "nC < length (stColumnEdges st)"
    and st': "st' = st\<lparr>stGraph := (stGraph st)\<lparr>graphEdges := graphEdges (stGraph st) @ [Some (node0, node1)]\<rparr>,
                     stColumnEdges := (stColumnEdges st)[nC := Some (length (graphEdges (stGraph st)))]\<rparr>"
    by (auto simp: CMRgraphAddEdge_fresh [OF free] ebind_eq_Inr writeEdge_Inr)
  have "stGraph st' = \<lparr>graphNumNodes = graphNumNodes (stGraph st),
                 graphEdges = graphEdges (stGraph st) @ [Some (node0, node1)],
                 graphFreeEdges = []\<rparr>"
    unfolding st' using free by (cases "stGraph st") simp
  then show ?thesis using nb w st' by auto
qed

lemma addToGraph1Column_invariants:
  assumes run: "addToGraph1Column st nR nC nonzeroRows = Inr (st', True)"
    and ok: "graphStateOk st nR nC" and i1: "invariantI1 st nR" and i2: "invariantI2 st nR nC"
  shows "graphStateOk st' nR (Suc nC) \<and> invariantI1 st' nR \<and> invariantI2 st' nR (Suc nC)"
proof -
  let ?n = "graphNumNodes (stGraph st)"
  let ?es = "graphEdges (stGraph st)"
  have L: "length ?es = nR + nC" by (rule graphStateOk_length [OF ok])
  from addToGraph1Column_shape [OF run graphStateOk_free [OF ok]]
  obtain node0 node1 where
    nb: "node0 < ?n" "node1 < ?n"
    and b: "nC < length (stColumnEdges st)"
    and g: "stGraph st' = \<lparr>graphNumNodes = ?n, graphEdges = ?es @ [Some (node0, node1)],
                 graphFreeEdges = []\<rparr>"
    and r: "stRowEdges st' = stRowEdges st"
    and c: "stColumnEdges st' = (stColumnEdges st)[nC := Some (length ?es)]"
    by blast
  have rl: "nR \<le> length (stRowEdges st)" using ok unfolding graphStateOk_def by blast
  have ends: "\<exists>u v. graphEdges (stGraph st') ! e = Some (u, v)
                  \<and> u < graphNumNodes (stGraph st') \<and> v < graphNumNodes (stGraph st')"
    if "e < nR + Suc nC" for e
  proof (cases "e < length ?es")
    case True
    then show ?thesis using graphStateOk_edge [OF ok True] unfolding g
      by (auto simp: nth_append)
  next
    case False
    then have "e = length ?es" using that L by auto
    then show ?thesis using nb unfolding g by (auto simp: nth_append)
  qed
  have okI2: "graphStateOk st' nR (Suc nC) \<and> invariantI2 st' nR (Suc nC)"
  proof (rule extend_ok_I2 [OF ok i2])
    show "nR \<le> nR" "nC \<le> Suc nC" by simp_all
    show "graphFreeEdges (stGraph st') = []" unfolding g by simp
    show "length (graphEdges (stGraph st')) = nR + Suc nC" unfolding g using L by simp
    show "\<And>e. e < nR + Suc nC \<Longrightarrow> \<exists>u v. graphEdges (stGraph st') ! e = Some (u, v)
                  \<and> u < graphNumNodes (stGraph st') \<and> v < graphNumNodes (stGraph st')"
      by (rule ends)
    show "nR \<le> length (stRowEdges st')" "Suc nC \<le> length (stColumnEdges st')"
      using b rl unfolding r c by simp_all
    show "\<And>r. r < nR \<Longrightarrow> stRowEdges st' ! r = stRowEdges st ! r" unfolding r by simp
    show "\<And>c. c < nC \<Longrightarrow> stColumnEdges st' ! c = stColumnEdges st ! c" unfolding c by simp
    show "\<And>r. nR \<le> r \<Longrightarrow> r < nR \<Longrightarrow>
            \<exists>e. stRowEdges st' ! r = Some e \<and> nR + nC \<le> e \<and> e < nR + Suc nC"
      by simp
    show "\<And>c. nC \<le> c \<Longrightarrow> c < Suc nC \<Longrightarrow>
            \<exists>e. stColumnEdges st' ! c = Some e \<and> nR + nC \<le> e \<and> e < nR + Suc nC"
      using b L unfolding c by (auto simp: less_Suc_eq)
    show "\<And>e. nR + nC \<le> e \<Longrightarrow> e < nR + Suc nC \<Longrightarrow>
                (\<exists>c. nC \<le> c \<and> c < Suc nC \<and> stColumnEdges st' ! c = Some e)
                  \<longleftrightarrow> \<not> (\<exists>r. nR \<le> r \<and> r < nR \<and> stRowEdges st' ! r = Some e)"
      using b L unfolding r c by (auto simp: less_Suc_eq)
  qed
  then have ok': "graphStateOk st' nR (Suc nC)" by simp
  have old: "rowEnds st' r = rowEnds st r" if "r < nR" for r
  proof -
    from graphStateOk_row [OF ok that] obtain e' u v where
      r': "stRowEdges st ! r = Some e'" "e' < length ?es" "?es ! e' = Some (u, v)"
      by blast
    show ?thesis unfolding rowEnds_def r g using r' by (simp add: nth_append)
  qed
  have "invariantI1 st' nR"
    by (rule invariantI1_same [OF ok ok' i1 _ old]) (simp_all add: g)
  then show ?thesis using okI2 by simp
qed

lemma addToGraph2Rows1Column_shape:
  assumes "addToGraph2Rows1Column st nR nC row1Parallel row2Parallel = Inr (st', True)"
    and "graphFreeEdges (stGraph st) = []"
  shows "\<exists>row1Edge row2Edge common other1 other2.
           checkEdgesAdjacent (stGraph st) row1Edge row2Edge = Inr (Some (common, other1, other2))
           \<and> Suc nR < length (stRowEdges st) \<and> nC < length (stColumnEdges st)
           \<and> stGraph st' = \<lparr>graphNumNodes = Suc (Suc (graphNumNodes (stGraph st))),
                 graphEdges = ((graphEdges (stGraph st))[row1Edge := Some (other1, graphNumNodes (stGraph st))]
                    @ [Some (graphNumNodes (stGraph st), common)])
                      [row2Edge := Some (other2, Suc (graphNumNodes (stGraph st)))]
                    @ [Some (Suc (graphNumNodes (stGraph st)), common),
                       Some (graphNumNodes (stGraph st), Suc (graphNumNodes (stGraph st)))],
                 graphFreeEdges = []\<rparr>
           \<and> stRowEdges st' = (stRowEdges st)[nR := Some (length (graphEdges (stGraph st))),
                                   Suc nR := Some (Suc (length (graphEdges (stGraph st))))]
           \<and> stColumnEdges st' = (stColumnEdges st)[nC := Some (Suc (Suc (length (graphEdges (stGraph st)))))]"
  using assms unfolding addToGraph2Rows1Column_def
  apply (clarsimp simp: ebind_eq_Inr Let_def split_def CMRgraphAddNode_def CMRgraphAddEdge_deleted
        CMRgraphAddEdge_fresh writeEdge_Inr
      split: if_splits option.splits)
  apply (cases "stGraph st")
  apply auto
  done


lemma addToGraph2Rows1Column_invariants:
  assumes run: "addToGraph2Rows1Column st nR nC row1Parallel row2Parallel = Inr (st', True)"
    and ok: "graphStateOk st nR nC" and i1: "invariantI1 st nR" and i2: "invariantI2 st nR nC"
  shows "graphStateOk st' (Suc (Suc nR)) (Suc nC) \<and> invariantI1 st' (Suc (Suc nR))
           \<and> invariantI2 st' (Suc (Suc nR)) (Suc nC)"
proof -
  let ?n = "graphNumNodes (stGraph st)"
  let ?es = "graphEdges (stGraph st)"
  have L: "length ?es = nR + nC" by (rule graphStateOk_length [OF ok])
  from addToGraph2Rows1Column_shape [OF run graphStateOk_free [OF ok]]
  obtain row1Edge row2Edge common other1 other2 where
    adj: "checkEdgesAdjacent (stGraph st) row1Edge row2Edge = Inr (Some (common, other1, other2))"
    and b: "Suc nR < length (stRowEdges st)" "nC < length (stColumnEdges st)"
    and g: "stGraph st' = \<lparr>graphNumNodes = Suc (Suc ?n),
                 graphEdges = (?es[row1Edge := Some (other1, ?n)] @ [Some (?n, common)])
                      [row2Edge := Some (other2, Suc ?n)]
                    @ [Some (Suc ?n, common), Some (?n, Suc ?n)],
                 graphFreeEdges = []\<rparr>"
    and r: "stRowEdges st' = (stRowEdges st)[nR := Some (length ?es), Suc nR := Some (Suc (length ?es))]"
    and c: "stColumnEdges st' = (stColumnEdges st)[nC := Some (Suc (Suc (length ?es)))]"
    by blast
  from checkEdgesAdjacent_Some [OF adj] obtain eU eV fU fV where
    e: "row1Edge < length ?es" "?es ! row1Edge = Some (eU, eV)"
    and f: "row2Edge < length ?es" "?es ! row2Edge = Some (fU, fV)"
    and ce: "(common, other1) = (eU, eV) \<or> (common, other1) = (eV, eU)"
    and cf: "(common, other2) = (fU, fV) \<or> (common, other2) = (fV, fU)"
    by blast
  have eb: "eU < ?n" "eV < ?n" using graphStateOk_edge [OF ok e(1)] e(2) by auto
  have fb: "fU < ?n" "fV < ?n" using graphStateOk_edge [OF ok f(1)] f(2) by auto
  have nb: "common < ?n" "other1 < ?n" "other2 < ?n" using ce cf eb fb by auto
  have oldSlot: "graphEdges (stGraph st') ! x =
      (if x = row2Edge then Some (other2, Suc ?n)
       else if x = row1Edge then Some (other1, ?n) else ?es ! x)" if "x < length ?es" for x
    using that e(1) f(1) unfolding g by (simp add: nth_append nth_list_update)
  have newSlot: "graphEdges (stGraph st') ! length ?es = Some (?n, common)"
    "graphEdges (stGraph st') ! Suc (length ?es) = Some (Suc ?n, common)"
    "graphEdges (stGraph st') ! Suc (Suc (length ?es)) = Some (?n, Suc ?n)"
    using f(1) unfolding g by (simp_all add: nth_append nth_list_update)
  have nodes: "graphNumNodes (stGraph st') = Suc (Suc ?n)" unfolding g by simp
  have ends: "\<exists>u v. graphEdges (stGraph st') ! x = Some (u, v)
                  \<and> u < graphNumNodes (stGraph st') \<and> v < graphNumNodes (stGraph st')"
    if "x < Suc (Suc nR) + Suc nC" for x
  proof (cases "x < length ?es")
    case True
    then show ?thesis using graphStateOk_edge [OF ok True] oldSlot [OF True] nb nodes by auto
  next
    case False
    then have "x = length ?es \<or> x = Suc (length ?es) \<or> x = Suc (Suc (length ?es))" using that L by auto
    then show ?thesis using nb newSlot nodes by auto
  qed
  have rn: "stRowEdges st' ! nR = Some (length ?es)" "stRowEdges st' ! Suc nR = Some (Suc (length ?es))"
    using b unfolding r by simp_all
  have cn: "stColumnEdges st' ! nC = Some (Suc (Suc (length ?es)))"
    using b unfolding c by simp
  have okI2: "graphStateOk st' (Suc (Suc nR)) (Suc nC) \<and> invariantI2 st' (Suc (Suc nR)) (Suc nC)"
  proof (rule extend_ok_I2 [OF ok i2])
    show "nR \<le> Suc (Suc nR)" "nC \<le> Suc nC" by simp_all
    show "graphFreeEdges (stGraph st') = []" unfolding g by simp
    show "length (graphEdges (stGraph st')) = Suc (Suc nR) + Suc nC" unfolding g using L by simp
    show "\<And>e. e < Suc (Suc nR) + Suc nC \<Longrightarrow> \<exists>u v. graphEdges (stGraph st') ! e = Some (u, v)
                  \<and> u < graphNumNodes (stGraph st') \<and> v < graphNumNodes (stGraph st')"
      by (rule ends)
    show "Suc (Suc nR) \<le> length (stRowEdges st')" "Suc nC \<le> length (stColumnEdges st')"
      using b unfolding r c by simp_all
    show "\<And>r. r < nR \<Longrightarrow> stRowEdges st' ! r = stRowEdges st ! r" unfolding r by simp
    show "\<And>c. c < nC \<Longrightarrow> stColumnEdges st' ! c = stColumnEdges st ! c" unfolding c by simp
    show "\<exists>e. stRowEdges st' ! r' = Some e \<and> nR + nC \<le> e \<and> e < Suc (Suc nR) + Suc nC"
      if "nR \<le> r'" "r' < Suc (Suc nR)" for r'
    proof -
      have "r' = nR \<or> r' = Suc nR" using that by auto
      then show ?thesis using rn L by auto
    qed
    show "\<exists>e. stColumnEdges st' ! c' = Some e \<and> nR + nC \<le> e \<and> e < Suc (Suc nR) + Suc nC"
      if "nC \<le> c'" "c' < Suc nC" for c'
    proof -
      have "c' = nC" using that by auto
      then show ?thesis using cn L by auto
    qed
  next
    fix x assume x: "nR + nC \<le> x" "x < Suc (Suc nR) + Suc nC"
    have cs: "(\<exists>c. nC \<le> c \<and> c < Suc nC \<and> stColumnEdges st' ! c = Some x)
                \<longleftrightarrow> x = Suc (Suc (length ?es))"
    proof
      assume "\<exists>c. nC \<le> c \<and> c < Suc nC \<and> stColumnEdges st' ! c = Some x"
      then obtain c' where c': "nC \<le> c'" "c' < Suc nC" "stColumnEdges st' ! c' = Some x" by blast
      then have "c' = nC" by auto
      then show "x = Suc (Suc (length ?es))" using c'(3) cn by auto
    next
      assume "x = Suc (Suc (length ?es))"
      then show "\<exists>c. nC \<le> c \<and> c < Suc nC \<and> stColumnEdges st' ! c = Some x"
        using cn by (intro exI [of _ nC]) simp
    qed
    have rs: "(\<exists>r. nR \<le> r \<and> r < Suc (Suc nR) \<and> stRowEdges st' ! r = Some x)
                \<longleftrightarrow> x = length ?es \<or> x = Suc (length ?es)"
    proof
      assume "\<exists>r. nR \<le> r \<and> r < Suc (Suc nR) \<and> stRowEdges st' ! r = Some x"
      then obtain r' where r': "nR \<le> r'" "r' < Suc (Suc nR)" "stRowEdges st' ! r' = Some x" by blast
      then have "r' = nR \<or> r' = Suc nR" by auto
      then show "x = length ?es \<or> x = Suc (length ?es)" using r'(3) rn by auto
    next
      assume "x = length ?es \<or> x = Suc (length ?es)"
      then show "\<exists>r. nR \<le> r \<and> r < Suc (Suc nR) \<and> stRowEdges st' ! r = Some x"
      proof
        assume "x = length ?es"
        then show ?thesis using rn(1) by (intro exI [of _ nR]) simp
      next
        assume "x = Suc (length ?es)"
        then show ?thesis using rn(2) by (intro exI [of _ "Suc nR"]) simp
      qed
    qed
    show "(\<exists>c. nC \<le> c \<and> c < Suc nC \<and> stColumnEdges st' ! c = Some x)
                  \<longleftrightarrow> \<not> (\<exists>r. nR \<le> r \<and> r < Suc (Suc nR) \<and> stRowEdges st' ! r = Some x)"
      unfolding cs rs using x L by auto
  qed
  then have ok': "graphStateOk st' (Suc (Suc nR)) (Suc nC)" by simp
  have f0: "forestEdges (mset (map (rowEnds st) [0..<nR]))" and n: "?n = nR + 1"
    using i1 invariantI1_rowEnds [OF ok] by blast+
  define f1 where "f1 r = (if stRowEdges st ! r = Some row2Edge then (other2, Suc ?n) else rowEnds st r)" for r
  have new: "rowEnds st' nR = (?n, common)" "rowEnds st' (Suc nR) = (Suc ?n, common)"
    unfolding rowEnds_def rn using newSlot by simp_all
  have stage1: "unordered (contractNode common (Suc ?n) (f1 r)) = unordered (rowEnds st r)" if "r < nR" for r
  proof -
    from graphStateOk_row [OF ok that] obtain e' u v where
      r': "stRowEdges st ! r = Some e'" "e' < length ?es" "?es ! e' = Some (u, v)" "u < ?n" "v < ?n"
      by blast
    have old': "rowEnds st r = (u, v)" unfolding rowEnds_def using r' by simp
    show ?thesis
    proof (cases "e' = row2Edge")
      case True
      then have "(u, v) = (fU, fV)" using r'(3) f(2) by simp
      then show ?thesis unfolding f1_def using old' r'(1) True cf nb unordered_swap [of fU fV]
        by (auto simp: contractNode_def)
    next
      case False
      then show ?thesis unfolding f1_def using old' r' by (simp add: contractNode_def)
    qed
  qed
  have stage2: "unordered (contractNode common ?n (rowEnds st' r)) = unordered (f1 r)" if "r < nR" for r
  proof -
    from graphStateOk_row [OF ok that] obtain e' u v where
      r': "stRowEdges st ! r = Some e'" "e' < length ?es" "?es ! e' = Some (u, v)" "u < ?n" "v < ?n"
      by blast
    have old': "rowEnds st r = (u, v)" unfolding rowEnds_def using r' by simp
    have rr: "stRowEdges st' ! r = Some e'" unfolding r using that r'(1) by simp
    have new': "rowEnds st' r = (if e' = row2Edge then (other2, Suc ?n)
       else if e' = row1Edge then (other1, ?n) else (u, v))"
      unfolding rowEnds_def rr using oldSlot [OF r'(2)] r'(3) by simp
    show ?thesis
    proof (cases "e' = row2Edge")
      case True
      then show ?thesis unfolding f1_def new' using r'(1) nb by (simp add: contractNode_def)
    next
      case False
      show ?thesis
      proof (cases "e' = row1Edge")
        case True
        then have "(u, v) = (eU, eV)" using r'(3) e(2) by simp
        then show ?thesis unfolding f1_def new' using r'(1) False True old' ce nb unordered_swap [of eU eV]
          by (auto simp: contractNode_def)
      next
        case False
        then show ?thesis unfolding f1_def new' using r' \<open>e' \<noteq> row2Edge\<close> old'
          by (simp add: contractNode_def)
      qed
    qed
  qed
  have m1: "forestEdges (add_mset (Suc ?n, common) (mset (map f1 [0..<nR])))"
    by (rule forest_split_rows0 [OF f0 stage1]) (use nb in auto)
  have m2: "forestEdges (add_mset (?n, common) (add_mset (Suc ?n, common) (mset (map (rowEnds st') [0..<nR]))))"
    by (rule forest_split_rows [OF m1 stage2]) (use nb in \<open>auto simp: contractNode_def\<close>)
  have eq: "map (rowEnds st') [0..<Suc (Suc nR)]
          = map (rowEnds st') [0..<nR] @ [(?n, common), (Suc ?n, common)]"
    using new by simp
  have "mset (map (rowEnds st') [0..<nR] @ [(?n, common), (Suc ?n, common)])
          = add_mset (?n, common) (add_mset (Suc ?n, common) (mset (map (rowEnds st') [0..<nR])))"
    by (simp del: mset_upt mset_map)
  then have "forestEdges (mset (map (rowEnds st') [0..<Suc (Suc nR)]))"
    unfolding eq using m2 by (simp del: mset_upt mset_map)
  then have "invariantI1 st' (Suc (Suc nR))"
    using invariantI1_rowEnds [OF ok'] nodes n by simp
  then show ?thesis using okI2 by simp
qed

text \<open>
  What the re-assignment loop of the one-row handler does to the graph: it keeps the nodes
  and the edge slots, and every edge either stays or is moved from the split node to the
  sister node, so that contracting the sister node into the split node gives its old end
  nodes back.
\<close>

definition edgesMoved :: "nat \<Rightarrow> nat \<Rightarrow> CMR_GRAPH \<Rightarrow> CMR_GRAPH \<Rightarrow> bool" where
  "edgesMoved splitNode sisterNode g g' \<longleftrightarrow>
     graphNumNodes g' = graphNumNodes g \<and> graphFreeEdges g' = graphFreeEdges g
     \<and> length (graphEdges g') = length (graphEdges g)
     \<and> (\<forall>e < length (graphEdges g). \<forall>uv. graphEdges g ! e = Some uv \<longrightarrow>
            (\<exists>uv'. graphEdges g' ! e = Some uv'
               \<and> unordered (contractNode splitNode sisterNode uv') = unordered (contractNode splitNode sisterNode uv)
               \<and> (fst uv' = fst uv \<or> fst uv' = snd uv \<or> fst uv' = sisterNode)
               \<and> (snd uv' = fst uv \<or> snd uv' = snd uv \<or> snd uv' = sisterNode)))"

lemma edgesMoved_refl: "edgesMoved splitNode sisterNode g g"
  unfolding edgesMoved_def by simp

lemma edgesMoved_trans:
  assumes "edgesMoved splitNode sisterNode g g1" and "edgesMoved splitNode sisterNode g1 g2"
  shows "edgesMoved splitNode sisterNode g g2"
  unfolding edgesMoved_def
proof (intro conjI allI impI)
  show "graphNumNodes g2 = graphNumNodes g" "graphFreeEdges g2 = graphFreeEdges g"
    "length (graphEdges g2) = length (graphEdges g)"
    using assms unfolding edgesMoved_def by simp_all
next
  fix e uv assume e: "e < length (graphEdges g)" and uv: "graphEdges g ! e = Some uv"
  from assms(1) e uv obtain uv1 where 1: "graphEdges g1 ! e = Some uv1"
    "unordered (contractNode splitNode sisterNode uv1) = unordered (contractNode splitNode sisterNode uv)"
    "fst uv1 = fst uv \<or> fst uv1 = snd uv \<or> fst uv1 = sisterNode"
    "snd uv1 = fst uv \<or> snd uv1 = snd uv \<or> snd uv1 = sisterNode"
    unfolding edgesMoved_def by blast
  have e1: "e < length (graphEdges g1)" using assms(1) e unfolding edgesMoved_def by simp
  from assms(2) e1 1(1) obtain uv2 where 2: "graphEdges g2 ! e = Some uv2"
    "unordered (contractNode splitNode sisterNode uv2) = unordered (contractNode splitNode sisterNode uv1)"
    "fst uv2 = fst uv1 \<or> fst uv2 = snd uv1 \<or> fst uv2 = sisterNode"
    "snd uv2 = fst uv1 \<or> snd uv2 = snd uv1 \<or> snd uv2 = sisterNode"
    unfolding edgesMoved_def by blast
  show "\<exists>uv'. graphEdges g2 ! e = Some uv'
               \<and> unordered (contractNode splitNode sisterNode uv') = unordered (contractNode splitNode sisterNode uv)
               \<and> (fst uv' = fst uv \<or> fst uv' = snd uv \<or> fst uv' = sisterNode)
               \<and> (snd uv' = fst uv \<or> snd uv' = snd uv \<or> snd uv' = sisterNode)"
    using 1 2 by auto
qed

lemma edgesMoved_step:
  assumes e: "edge < length (graphEdges g)" and uw: "graphEdges g ! edge = Some (u, w)"
    and inc: "u = splitNode \<or> w = splitNode \<or> w = sisterNode"
    and v: "v = (if u = splitNode then w else u)"
  shows "edgesMoved splitNode sisterNode g (g\<lparr>graphEdges := (graphEdges g)[edge := Some (v, sisterNode)]\<rparr>)"
  unfolding edgesMoved_def
proof (intro conjI allI impI)
  fix e' uv assume e': "e' < length (graphEdges g)" and uv: "graphEdges g ! e' = Some uv"
  show "\<exists>uv'. graphEdges (g\<lparr>graphEdges := (graphEdges g)[edge := Some (v, sisterNode)]\<rparr>) ! e' = Some uv'
               \<and> unordered (contractNode splitNode sisterNode uv') = unordered (contractNode splitNode sisterNode uv)
               \<and> (fst uv' = fst uv \<or> fst uv' = snd uv \<or> fst uv' = sisterNode)
               \<and> (snd uv' = fst uv \<or> snd uv' = snd uv \<or> snd uv' = sisterNode)"
  proof (cases "e' = edge")
    case False
    then show ?thesis using uv by simp
  next
    case True
    then have uv': "uv = (u, w)" using uv uw by simp
    have "unordered (contractNode splitNode sisterNode (v, sisterNode))
            = unordered (contractNode splitNode sisterNode (u, w))"
      using inc v unordered_swap [of splitNode "if w = sisterNode then splitNode else w"]
      by (auto simp: contractNode_def unordered_swap)
    then show ?thesis using True e uv' v by auto
  qed
qed simp_all

lemma addToGraph1Row_reassign_moved:
  assumes "addToGraph1Row_reassign splitNode sisterNode nodesComponent componentAuxiliaryNodes bipartition
             edges1 incidentEdges g = Inr g'"
    and "\<And>edge u w. edge \<in> set incidentEdges \<Longrightarrow> edge < length (graphEdges g)
           \<Longrightarrow> graphEdges g ! edge = Some (u, w) \<Longrightarrow> u = splitNode \<or> w = splitNode \<or> w = sisterNode"
  shows "edgesMoved splitNode sisterNode g g'"
  using assms
proof (induction incidentEdges arbitrary: g)
  case Nil
  then show ?case by (simp add: edgesMoved_refl)
next
  case (Cons edge incidentEdges)
  from Cons.prems(1) obtain u w where uw: "CMRgraphEdgeUV g edge = Inr (u, w)"
    by (auto simp: ebind_eq_Inr)
  then have e: "edge < length (graphEdges g)" "graphEdges g ! edge = Some (u, w)"
    by (simp_all add: CMRgraphEdgeUV_Inr)
  define v where "v = (if u = splitNode then w else u)"
  have inc: "u = splitNode \<or> w = splitNode \<or> w = sisterNode"
    using Cons.prems(2) [of edge u w] e by simp
  let ?g1 = "g\<lparr>graphEdges := (graphEdges g)[edge := Some (v, sisterNode)]\<rparr>"
  from Cons.prems(1) uw have
    "addToGraph1Row_reassign splitNode sisterNode nodesComponent componentAuxiliaryNodes bipartition
       edges1 incidentEdges ?g1 = Inr g'
     \<or> addToGraph1Row_reassign splitNode sisterNode nodesComponent componentAuxiliaryNodes bipartition
       edges1 incidentEdges g = Inr g'"
    by (auto simp: ebind_eq_Inr Let_def CMRgraphAddEdge_deleted v_def split: if_splits option.splits)
  then show ?case
  proof
    assume rest: "addToGraph1Row_reassign splitNode sisterNode nodesComponent componentAuxiliaryNodes
       bipartition edges1 incidentEdges g = Inr g'"
    show ?thesis by (rule Cons.IH [OF rest]) (use Cons.prems(2) in auto)
  next
    assume rest: "addToGraph1Row_reassign splitNode sisterNode nodesComponent componentAuxiliaryNodes
       bipartition edges1 incidentEdges ?g1 = Inr g'"
    have step: "edgesMoved splitNode sisterNode g ?g1"
      by (rule edgesMoved_step [OF e inc v_def])
    have "edgesMoved splitNode sisterNode ?g1 g'"
    proof (rule Cons.IH [OF rest])
      fix edge' u' w' assume a: "edge' \<in> set incidentEdges" "edge' < length (graphEdges ?g1)"
        "graphEdges ?g1 ! edge' = Some (u', w')"
      show "u' = splitNode \<or> w' = splitNode \<or> w' = sisterNode"
      proof (cases "edge' = edge")
        case True
        then show ?thesis using a e by simp
      next
        case False
        then show ?thesis using a Cons.prems(2) [of edge' u' w'] by simp
      qed
    qed
    with step show ?thesis by (rule edgesMoved_trans)
  qed
qed

lemma CMRgraphInc_member:
  assumes "x \<in> set (CMRgraphInc g v)"
  shows "fst x < length (graphEdges g) \<and> (\<exists>a b. graphEdges g ! fst x = Some (a, b) \<and> (a = v \<or> b = v))"
  using assms unfolding CMRgraphInc_def
  by (auto split: option.splits if_splits dest: sym)

lemma findComponents_Inr:
  "findComponents g columnEdges removedNode nonzeroColumns = Inr x \<Longrightarrow> removedNode < graphNumNodes g"
  unfolding findComponents_def by (auto split: if_splits)

lemma addToGraph1Row_shape:
  assumes run: "addToGraph1Row scratchVisited scratchParent st nR nC nonzeroColumns = Inr (st', True)"
  shows "\<exists>splitNode nodesComponent componentAuxiliaryNodes bipartition edges1 g2 g3 newRowEdge.
           splitNode < graphNumNodes (stGraph st)
           \<and> addToGraph1Row_reassign splitNode (graphNumNodes (stGraph st)) nodesComponent
                componentAuxiliaryNodes bipartition edges1
                (map fst (CMRgraphInc ((stGraph st)\<lparr>graphNumNodes := Suc (graphNumNodes (stGraph st))\<rparr>)
                            splitNode))
                ((stGraph st)\<lparr>graphNumNodes := Suc (graphNumNodes (stGraph st))\<rparr>) = Inr g2
           \<and> CMRgraphAddEdge g2 splitNode (graphNumNodes (stGraph st)) = (g3, newRowEdge)
           \<and> nR < length (stRowEdges st)
           \<and> stGraph st' = g3
           \<and> stRowEdges st' = (stRowEdges st)[nR := Some newRowEdge]
           \<and> stColumnEdges st' = stColumnEdges st"
  using assms unfolding addToGraph1Row_def
  apply (clarsimp simp: ebind_eq_Inr Let_def split_def CMRgraphAddNode_def writeEdge_Inr
      split: if_splits option.splits prod.splits)
  apply (frule findComponents_Inr)
  apply (intro exI conjI)
        apply assumption
       apply assumption
      apply (rule surjective_pairing)
  apply simp_all
  done


lemma edgesMovedD:
  "edgesMoved splitNode sisterNode g g' \<Longrightarrow> e < length (graphEdges g) \<Longrightarrow> graphEdges g ! e = Some uv
     \<Longrightarrow> \<exists>uv'. graphEdges g' ! e = Some uv'
               \<and> unordered (contractNode splitNode sisterNode uv') = unordered (contractNode splitNode sisterNode uv)
               \<and> (fst uv' = fst uv \<or> fst uv' = snd uv \<or> fst uv' = sisterNode)
               \<and> (snd uv' = fst uv \<or> snd uv' = snd uv \<or> snd uv' = sisterNode)"
  unfolding edgesMoved_def by blast

lemma addToGraph1Row_invariants:
  assumes run: "addToGraph1Row scratchVisited scratchParent st nR nC nonzeroColumns = Inr (st', True)"
    and ok: "graphStateOk st nR nC" and i1: "invariantI1 st nR" and i2: "invariantI2 st nR nC"
  shows "graphStateOk st' (Suc nR) nC \<and> invariantI1 st' (Suc nR) \<and> invariantI2 st' (Suc nR) nC"
proof -
  let ?n = "graphNumNodes (stGraph st)"
  let ?es = "graphEdges (stGraph st)"
  let ?g1 = "(stGraph st)\<lparr>graphNumNodes := Suc ?n\<rparr>"
  have L: "length ?es = nR + nC" by (rule graphStateOk_length [OF ok])
  have cl: "nC \<le> length (stColumnEdges st)" using ok unfolding graphStateOk_def by blast
  from addToGraph1Row_shape [OF run]
  obtain splitNode nodesComponent componentAuxiliaryNodes bipartition edges1 g2 g3 newRowEdge where
    sp: "splitNode < ?n"
    and re: "addToGraph1Row_reassign splitNode ?n nodesComponent componentAuxiliaryNodes bipartition edges1
                (map fst (CMRgraphInc ?g1 splitNode)) ?g1 = Inr g2"
    and add: "CMRgraphAddEdge g2 splitNode ?n = (g3, newRowEdge)"
    and b: "nR < length (stRowEdges st)"
    and g: "stGraph st' = g3"
    and r: "stRowEdges st' = (stRowEdges st)[nR := Some newRowEdge]"
    and c: "stColumnEdges st' = stColumnEdges st"
    by blast
  have mv: "edgesMoved splitNode ?n ?g1 g2"
  proof (rule addToGraph1Row_reassign_moved [OF re])
    fix edge u w assume a: "edge \<in> set (map fst (CMRgraphInc ?g1 splitNode))"
      "edge < length (graphEdges ?g1)" "graphEdges ?g1 ! edge = Some (u, w)"
    then obtain x where "x \<in> set (CMRgraphInc ?g1 splitNode)" "edge = fst x" by auto
    from CMRgraphInc_member [OF this(1)] this(2) a(3)
    show "u = splitNode \<or> w = splitNode \<or> w = ?n" by auto
  qed
  have g2: "graphNumNodes g2 = Suc ?n" "graphFreeEdges g2 = []" "length (graphEdges g2) = length ?es"
    using mv graphStateOk_free [OF ok] unfolding edgesMoved_def by simp_all
  have moved: "\<exists>uv'. graphEdges g2 ! e = Some uv'
               \<and> unordered (contractNode splitNode ?n uv') = unordered (u, v)
               \<and> fst uv' < Suc ?n \<and> snd uv' < Suc ?n"
    if "e < length ?es" "?es ! e = Some (u, v)" "u < ?n" "v < ?n" for e u v
  proof -
    have e1: "e < length (graphEdges ?g1)" "graphEdges ?g1 ! e = Some (u, v)"
      using that(1,2) by simp_all
    from edgesMovedD [OF mv e1] obtain uv' where m: "graphEdges g2 ! e = Some uv'"
      "unordered (contractNode splitNode ?n uv') = unordered (contractNode splitNode ?n (u, v))"
      "fst uv' = u \<or> fst uv' = v \<or> fst uv' = ?n"
      "snd uv' = u \<or> snd uv' = v \<or> snd uv' = ?n"
      by auto
    have "contractNode splitNode ?n (u, v) = (u, v)" using that(3,4) by (simp add: contractNode_def)
    then show ?thesis using m that(3,4) by auto
  qed
  have g3: "g3 = g2\<lparr>graphEdges := graphEdges g2 @ [Some (splitNode, ?n)]\<rparr>" "newRowEdge = length ?es"
    using add g2 by (simp_all add: CMRgraphAddEdge_fresh)
  have nodes: "graphNumNodes (stGraph st') = Suc ?n" unfolding g g3 using g2 by simp
  have ends: "\<exists>u v. graphEdges (stGraph st') ! e = Some (u, v)
                  \<and> u < graphNumNodes (stGraph st') \<and> v < graphNumNodes (stGraph st')"
    if "e < Suc nR + nC" for e
  proof (cases "e < length ?es")
    case True
    from graphStateOk_edge [OF ok True] obtain u v where "?es ! e = Some (u, v)" "u < ?n" "v < ?n"
      by blast
    from moved [OF True this] obtain uv' where "graphEdges g2 ! e = Some uv'" "fst uv' < Suc ?n"
      "snd uv' < Suc ?n" by blast
    then show ?thesis using True g2 nodes unfolding g g3 by (cases uv') (simp add: nth_append)
  next
    case False
    then have "e = length ?es" using that L by auto
    then show ?thesis using sp g2 nodes unfolding g g3 by (simp add: nth_append)
  qed
  have okI2: "graphStateOk st' (Suc nR) nC \<and> invariantI2 st' (Suc nR) nC"
  proof (rule extend_ok_I2 [OF ok i2])
    show "nR \<le> Suc nR" "nC \<le> nC" by simp_all
    show "graphFreeEdges (stGraph st') = []" unfolding g g3 using g2 by simp
    show "length (graphEdges (stGraph st')) = Suc nR + nC" unfolding g g3 using L g2 by simp
    show "\<And>e. e < Suc nR + nC \<Longrightarrow> \<exists>u v. graphEdges (stGraph st') ! e = Some (u, v)
                  \<and> u < graphNumNodes (stGraph st') \<and> v < graphNumNodes (stGraph st')"
      by (rule ends)
    show "Suc nR \<le> length (stRowEdges st')" "nC \<le> length (stColumnEdges st')"
      using b cl unfolding r c by simp_all
    show "\<And>r. r < nR \<Longrightarrow> stRowEdges st' ! r = stRowEdges st ! r" unfolding r by simp
    show "\<And>c. c < nC \<Longrightarrow> stColumnEdges st' ! c = stColumnEdges st ! c" unfolding c by simp
    show "\<And>r. nR \<le> r \<Longrightarrow> r < Suc nR \<Longrightarrow>
            \<exists>e. stRowEdges st' ! r = Some e \<and> nR + nC \<le> e \<and> e < Suc nR + nC"
      using b L g3(2) unfolding r by (auto simp: less_Suc_eq)
    show "\<And>c. nC \<le> c \<Longrightarrow> c < nC \<Longrightarrow>
            \<exists>e. stColumnEdges st' ! c = Some e \<and> nR + nC \<le> e \<and> e < Suc nR + nC"
      by simp
    show "\<And>e. nR + nC \<le> e \<Longrightarrow> e < Suc nR + nC \<Longrightarrow>
                (\<exists>c. nC \<le> c \<and> c < nC \<and> stColumnEdges st' ! c = Some e)
                  \<longleftrightarrow> \<not> (\<exists>r. nR \<le> r \<and> r < Suc nR \<and> stRowEdges st' ! r = Some e)"
      using b L g3(2) unfolding r c by (auto simp: less_Suc_eq)
  qed
  then have ok': "graphStateOk st' (Suc nR) nC" by simp
  have new: "rowEnds st' nR = (splitNode, ?n)"
    using b g2 unfolding rowEnds_def r g g3 by (simp add: nth_append)
  have old: "unordered (contractNode splitNode ?n (rowEnds st' r)) = unordered (rowEnds st r)" if "r < nR" for r
  proof -
    from graphStateOk_row [OF ok that] obtain e' u v where
      r': "stRowEdges st ! r = Some e'" "e' < length ?es" "?es ! e' = Some (u, v)" "u < ?n" "v < ?n"
      by blast
    have old': "rowEnds st r = (u, v)" unfolding rowEnds_def using r' by simp
    from moved [OF r'(2,3,4,5)] obtain uv' where m: "graphEdges g2 ! e' = Some uv'"
      "unordered (contractNode splitNode ?n uv') = unordered (u, v)" by blast
    have "rowEnds st' r = uv'"
      unfolding rowEnds_def r g g3 using that r' m(1) g2 by (simp add: nth_append)
    then show ?thesis using m(2) old' by simp
  qed
  have "invariantI1 st' (Suc nR)"
    by (rule invariantI1_split [OF ok ok' i1 nodes old]) (use new sp in auto)
  then show ?thesis using okI2 by simp
qed

lemma extensionDispatch_success:
  assumes run: "extensionDispatch proj scratchVisited scratchParent matrix transpose' hashVector
                  numRows0 numColumns0 numRows1 numColumns1 s = Inr (st', True)"
    and b: "numRows0 \<le> numRows1" "numRows1 < 2 ^ 64" "numColumns0 \<le> numColumns1" "numColumns1 < 2 ^ 64"
  shows "(numRows1 = Suc numRows0 \<and> numColumns1 = Suc numColumns0
            \<and> (\<exists>p q. addToGraph1Row1Column (seqGraphic s) numRows0 numColumns0 p q = Inr (st', True)))
       \<or> (numRows1 = Suc (Suc numRows0) \<and> numColumns1 = Suc numColumns0
            \<and> (\<exists>p q. addToGraph2Rows1Column (seqGraphic s) numRows0 numColumns0 p q = Inr (st', True)))
       \<or> (numRows1 = Suc numRows0 \<and> numColumns1 = Suc (Suc numColumns0)
            \<and> (\<exists>p q. addToGraph1Row2Columns (seqGraphic s) numRows0 numColumns0 p q = Inr (st', True)))
       \<or> (numRows1 = numRows0 \<and> numColumns1 = Suc numColumns0
            \<and> (\<exists>rows. addToGraph1Column (seqGraphic s) numRows0 numColumns0 rows = Inr (st', True)))
       \<or> (numRows1 = Suc numRows0 \<and> numColumns1 = numColumns0
            \<and> (\<exists>columns. addToGraph1Row scratchVisited scratchParent (seqGraphic s) numRows0 numColumns0
                             columns = Inr (st', True)))"
proof -
  have r: "size_sub numRows1 numRows0 = numRows1 - numRows0"
    using b by (simp add: size_sub_nowrap)
  have c: "size_sub numColumns1 numColumns0 = numColumns1 - numColumns0"
    using b by (simp add: size_sub_nowrap)
  have r': "numRows1 - numRows0 = k \<longleftrightarrow> numRows1 = numRows0 + k" for k
    using b(1) by arith
  have c': "numColumns1 - numColumns0 = k \<longleftrightarrow> numColumns1 = numColumns0 + k" for k
    using b(3) by arith
  from run show ?thesis
    unfolding extensionDispatch_def Let_def r c r' c'
    by (auto simp: ebind_eq_Inr split: if_splits)
qed


text \<open>\<open>M\<close> is a simple path from \<open>a\<close> to \<open>b\<close>.\<close>

definition pathBetween :: "(nat \<times> nat) multiset \<Rightarrow> nat \<Rightarrow> nat \<Rightarrow> bool" where
  "pathBetween M a b \<longleftrightarrow>
     (\<exists>vs. distinct vs \<and> 2 \<le> length vs \<and> hd vs = a \<and> last vs = b
        \<and> image_mset unordered M = image_mset unordered (mset (zip vs (tl vs))))"

text \<open>
  Modelled from the spec: invariant I3, for every processed column \<open>c\<close> the rows within the
  boundary with a nonzero in column \<open>c\<close> are exactly the rows whose row-edge lies on the tree
  path between the end nodes of the column's edge. The row-edges of the rows with a nonzero
  in column \<open>c\<close> (read off row \<open>c\<close> of the transposed matrix) form a simple path between
  the end nodes of the edge of column \<open>c\<close>; in a tree that path is the tree path.
\<close>

definition invariantI3 :: "graphic_state \<Rightarrow> CMR_CHRMAT \<Rightarrow> nat \<Rightarrow> nat \<Rightarrow> bool" where
  "invariantI3 st transpose' nR nC \<longleftrightarrow>
     (\<forall>c \<in> {0..<nC}.
        \<exists>e a b E. c < length (stColumnEdges st) \<and> stColumnEdges st ! c = Some e
          \<and> e < length (graphEdges (stGraph st)) \<and> graphEdges (stGraph st) ! e = Some (a, b)
          \<and> touchedEdges st (filter (\<lambda>r. r < nR) (rowEntries transpose' c)) = Some E
          \<and> pathBetween (mset E) a b)"

text \<open>
  A symmetric 4-by-4 matrix that extends the 3-by-3 wheel by a row and a column: on the first
  three columns row 3 agrees with row 0, and on the first three rows column 3 agrees with
  column 0, as in \<open>matrixParallelLines\<close>; but the corner entry is 1, so that row 3 is row 0
  once more.
\<close>

definition matrixRowTwice :: CMR_CHRMAT where
  "matrixRowTwice =
     \<lparr>numRows = 4, numColumns = 4, rowSlice = [0, 3, 6, 8, 11],
      entryColumns = [0, 1, 3, 0, 2, 3, 1, 2, 0, 1, 3]\<rparr>"

text \<open>The graph state the (1,1) handler leaves from \<open>wheel3\<close> for both matrices: the handler
  reads the two parallel elements and not the corner entry.\<close>

definition wheel3RowColumn :: graphic_state where
  "wheel3RowColumn =
     \<lparr>stGraph = \<lparr>graphNumNodes = 5,
                  graphEdges = [Some (1, 2), Some (0, 4), Some (2, 3), Some (0, 3), Some (3, 1), Some (0, 1),
                                Some (4, 2), Some (4, 1)],
                  graphFreeEdges = []\<rparr>,
      stRowEdges = [Some 1, Some 5, Some 3, Some 6],
      stColumnEdges = [Some 0, Some 2, Some 4, Some 7]\<rparr>"

lemma pathBetween_ends:
  assumes "pathBetween M a b"
  shows "degreeIn M a = 1" and "degreeIn M b = 1"
proof -
  from assms obtain vs where vs: "distinct vs" "2 \<le> length vs" "hd vs = a" "last vs = b"
    "image_mset unordered M = image_mset unordered (mset (zip vs (tl vs)))"
    unfolding pathBetween_def by blast
  have d: "degreeIn M v = degreeIn (mset (zip vs (tl vs))) v" for v
    using vs(5) by (metis degreeIn_unordered)
  have "{v. degreeIn (mset (zip vs (tl vs))) v = 1} = {a, b}"
    using path_leaves(1) [OF vs(1,2)] vs(3,4) by simp
  then have "a \<in> {v. degreeIn (mset (zip vs (tl vs))) v = 1}" "b \<in> {v. degreeIn (mset (zip vs (tl vs))) v = 1}"
    by simp_all
  then show "degreeIn M a = 1" "degreeIn M b = 1" using d by simp_all
qed

lemma pathBetweenI:
  "distinct vs \<Longrightarrow> 2 \<le> length vs \<Longrightarrow> hd vs = a \<Longrightarrow> last vs = b
     \<Longrightarrow> image_mset unordered M = image_mset unordered (mset (zip vs (tl vs))) \<Longrightarrow> pathBetween M a b"
  unfolding pathBetween_def by blast

lemma wheel3_ok: "graphStateOk wheel3 3 3" by code_simp

lemma wheel3_I2: "invariantI2 wheel3 3 3" by code_simp

lemma wheel3_I1: "invariantI1 wheel3 3"
proof -
  have t: "touchedEdges wheel3 [0..<3] = Some [(0, 2), (0, 1), (0, 3)]" by code_simp
  have "forestEdges {#(0 :: nat, 3 :: nat)#}"
    by (rule forestEdges_pendant [OF forestEdges_empty, of 3 _ 0]) simp_all
  then have "forestEdges {#(0 :: nat, 1 :: nat), (0, 3)#}"
    by (rule forestEdges_pendant [of _ 1 _ 0]) simp_all
  then have "forestEdges {#(0 :: nat, 2 :: nat), (0, 1), (0, 3)#}"
    by (rule forestEdges_pendant [of _ 2 _ 0]) simp_all
  then have "forestEdges (mset [(0 :: nat, 2 :: nat), (0, 1), (0, 3)])" by simp
  moreover have "graphNumNodes (stGraph wheel3) = 3 + 1" by (simp add: wheel3_def)
  ultimately show ?thesis unfolding invariantI1_def using t by blast
qed

lemma less_3_cases: "(c :: nat) < 3 \<Longrightarrow> c = 0 \<or> c = 1 \<or> c = 2"
  by arith

lemma wheel3_I3: "invariantI3 wheel3 matrixRowTwice 3 3"
  unfolding invariantI3_def
proof
  fix c :: nat assume "c \<in> {0..<3}"
  then have "c < 3" by simp
  then have "c = 0 \<or> c = 1 \<or> c = 2" by (rule less_3_cases)
  then show "\<exists>e a b E. c < length (stColumnEdges wheel3) \<and> stColumnEdges wheel3 ! c = Some e
          \<and> e < length (graphEdges (stGraph wheel3)) \<and> graphEdges (stGraph wheel3) ! e = Some (a, b)
          \<and> touchedEdges wheel3 (filter (\<lambda>r. r < 3) (rowEntries matrixRowTwice c)) = Some E
          \<and> pathBetween (mset E) a b"
  proof (elim disjE)
    assume c: "c = 0"
    have t: "touchedEdges wheel3 (filter (\<lambda>r. r < 3) (rowEntries matrixRowTwice 0)) = Some [(0, 2), (0, 1)]"
      by code_simp
    have p: "pathBetween (mset [(0 :: nat, 2 :: nat), (0, 1)]) 1 2"
      by (rule pathBetweenI [of "[1, 0, 2]"]) (simp_all add: unordered_def)
    have g: "0 < length (stColumnEdges wheel3)" "stColumnEdges wheel3 ! 0 = Some 0"
      "0 < length (graphEdges (stGraph wheel3))" "graphEdges (stGraph wheel3) ! 0 = Some (1, 2)"
      by (simp_all add: wheel3_def)
    show ?thesis unfolding c using g t p by blast
  next
    assume c: "c = 1"
    have t: "touchedEdges wheel3 (filter (\<lambda>r. r < 3) (rowEntries matrixRowTwice 1)) = Some [(0, 2), (0, 3)]"
      by code_simp
    have p: "pathBetween (mset [(0 :: nat, 2 :: nat), (0, 3)]) 2 3"
      by (rule pathBetweenI [of "[2, 0, 3]"]) (simp_all add: unordered_def)
    have g: "1 < length (stColumnEdges wheel3)" "stColumnEdges wheel3 ! 1 = Some 2"
      "2 < length (graphEdges (stGraph wheel3))" "graphEdges (stGraph wheel3) ! 2 = Some (2, 3)"
      by (simp_all add: wheel3_def)
    show ?thesis unfolding c using g t p by blast
  next
    assume c: "c = 2"
    have t: "touchedEdges wheel3 (filter (\<lambda>r. r < 3) (rowEntries matrixRowTwice 2)) = Some [(0, 1), (0, 3)]"
      by code_simp
    have p: "pathBetween (mset [(0 :: nat, 1 :: nat), (0, 3)]) 3 1"
      by (rule pathBetweenI [of "[3, 0, 1]"]) (simp_all add: unordered_def)
    have g: "2 < length (stColumnEdges wheel3)" "stColumnEdges wheel3 ! 2 = Some 4"
      "4 < length (graphEdges (stGraph wheel3))" "graphEdges (stGraph wheel3) ! 4 = Some (3, 1)"
      by (simp_all add: wheel3_def)
    show ?thesis unfolding c using g t p by blast
  qed
qed

lemma wheel3RowColumn_not_I3: "\<not> invariantI3 wheel3RowColumn matrixRowTwice 4 4"
proof
  assume "invariantI3 wheel3RowColumn matrixRowTwice 4 4"
  then have "\<forall>c \<in> {0..<4}.
        \<exists>e a b E. c < length (stColumnEdges wheel3RowColumn) \<and> stColumnEdges wheel3RowColumn ! c = Some e
          \<and> e < length (graphEdges (stGraph wheel3RowColumn))
          \<and> graphEdges (stGraph wheel3RowColumn) ! e = Some (a, b)
          \<and> touchedEdges wheel3RowColumn (filter (\<lambda>r. r < 4) (rowEntries matrixRowTwice c)) = Some E
          \<and> pathBetween (mset E) a b"
    unfolding invariantI3_def .
  moreover have "(3 :: nat) \<in> {0..<4}" by simp
  ultimately have "\<exists>e a b E. 3 < length (stColumnEdges wheel3RowColumn) \<and> stColumnEdges wheel3RowColumn ! 3 = Some e
          \<and> e < length (graphEdges (stGraph wheel3RowColumn))
          \<and> graphEdges (stGraph wheel3RowColumn) ! e = Some (a, b)
          \<and> touchedEdges wheel3RowColumn (filter (\<lambda>r. r < 4) (rowEntries matrixRowTwice 3)) = Some E
          \<and> pathBetween (mset E) a b"
    by (rule bspec)
  then obtain e a b E where
    c: "stColumnEdges wheel3RowColumn ! 3 = Some e"
    and e: "graphEdges (stGraph wheel3RowColumn) ! e = Some (a, b)"
    and t: "touchedEdges wheel3RowColumn (filter (\<lambda>r. r < 4) (rowEntries matrixRowTwice 3)) = Some E"
    and p: "pathBetween (mset E) a b"
    by blast
  have "stColumnEdges wheel3RowColumn ! 3 = Some 7" by (simp add: wheel3RowColumn_def)
  then have e7: "e = 7" using c by simp
  have "graphEdges (stGraph wheel3RowColumn) ! 7 = Some (4, 1)" by (simp add: wheel3RowColumn_def)
  then have ab: "a = 4" using e e7 by simp
  have "touchedEdges wheel3RowColumn (filter (\<lambda>r. r < 4) (rowEntries matrixRowTwice 3))
          = Some [(0, 4), (0, 1), (4, 2)]"
    by code_simp
  then have E: "E = [(0, 4), (0, 1), (4, 2)]" using t by simp
  have "degreeIn (mset E) a = 1" by (rule pathBetween_ends(1) [OF p])
  then show False unfolding E ab by simp
qed

lemma wheel3RowColumn_I3: "invariantI3 wheel3RowColumn matrixParallelLines 4 4"
  unfolding invariantI3_def
proof
  fix c :: nat assume "c \<in> {0..<4}"
  then have "c < 4" by simp
  then have "c = 0 \<or> c = 1 \<or> c = 2 \<or> c = 3" by (rule less_4_cases)
  then show "\<exists>e a b E. c < length (stColumnEdges wheel3RowColumn) \<and> stColumnEdges wheel3RowColumn ! c = Some e
          \<and> e < length (graphEdges (stGraph wheel3RowColumn))
          \<and> graphEdges (stGraph wheel3RowColumn) ! e = Some (a, b)
          \<and> touchedEdges wheel3RowColumn (filter (\<lambda>r. r < 4) (rowEntries matrixParallelLines c)) = Some E
          \<and> pathBetween (mset E) a b"
  proof (elim disjE)
    assume c: "c = 0"
    have t: "touchedEdges wheel3RowColumn (filter (\<lambda>r. r < 4) (rowEntries matrixParallelLines 0))
               = Some [(0, 4), (0, 1), (4, 2)]"
      by code_simp
    have p: "pathBetween (mset [(0 :: nat, 4 :: nat), (0, 1), (4, 2)]) 1 2"
      by (rule pathBetweenI [of "[1, 0, 4, 2]"]) (simp_all add: unordered_def)
    have g: "0 < length (stColumnEdges wheel3RowColumn)" "stColumnEdges wheel3RowColumn ! 0 = Some 0"
      "0 < length (graphEdges (stGraph wheel3RowColumn))"
      "graphEdges (stGraph wheel3RowColumn) ! 0 = Some (1, 2)"
      by (simp_all add: wheel3RowColumn_def)
    show ?thesis unfolding c using g t p by blast
  next
    assume c: "c = 1"
    have t: "touchedEdges wheel3RowColumn (filter (\<lambda>r. r < 4) (rowEntries matrixParallelLines 1))
               = Some [(0, 4), (0, 3), (4, 2)]"
      by code_simp
    have p: "pathBetween (mset [(0 :: nat, 4 :: nat), (0, 3), (4, 2)]) 2 3"
      by (rule pathBetweenI [of "[2, 4, 0, 3]"]) (simp_all add: unordered_def)
    have g: "1 < length (stColumnEdges wheel3RowColumn)" "stColumnEdges wheel3RowColumn ! 1 = Some 2"
      "2 < length (graphEdges (stGraph wheel3RowColumn))"
      "graphEdges (stGraph wheel3RowColumn) ! 2 = Some (2, 3)"
      by (simp_all add: wheel3RowColumn_def)
    show ?thesis unfolding c using g t p by blast
  next
    assume c: "c = 2"
    have t: "touchedEdges wheel3RowColumn (filter (\<lambda>r. r < 4) (rowEntries matrixParallelLines 2))
               = Some [(0, 1), (0, 3)]"
      by code_simp
    have p: "pathBetween (mset [(0 :: nat, 1 :: nat), (0, 3)]) 3 1"
      by (rule pathBetweenI [of "[3, 0, 1]"]) (simp_all add: unordered_def)
    have g: "2 < length (stColumnEdges wheel3RowColumn)" "stColumnEdges wheel3RowColumn ! 2 = Some 4"
      "4 < length (graphEdges (stGraph wheel3RowColumn))"
      "graphEdges (stGraph wheel3RowColumn) ! 4 = Some (3, 1)"
      by (simp_all add: wheel3RowColumn_def)
    show ?thesis unfolding c using g t p by blast
  next
    assume c: "c = 3"
    have t: "touchedEdges wheel3RowColumn (filter (\<lambda>r. r < 4) (rowEntries matrixParallelLines 3))
               = Some [(0, 4), (0, 1)]"
      by code_simp
    have p: "pathBetween (mset [(0 :: nat, 4 :: nat), (0, 1)]) 4 1"
      by (rule pathBetweenI [of "[4, 0, 1]"]) (simp_all add: unordered_def)
    have g: "3 < length (stColumnEdges wheel3RowColumn)" "stColumnEdges wheel3RowColumn ! 3 = Some 7"
      "7 < length (graphEdges (stGraph wheel3RowColumn))"
      "graphEdges (stGraph wheel3RowColumn) ! 7 = Some (4, 1)"
      by (simp_all add: wheel3RowColumn_def)
    show ?thesis unfolding c using g t p by blast
  qed
qed




section \<open>The array of incident edges of the one-row handler\<close>

text \<open>
  The wheel with three spokes, followed by three columns that are each parallel to one spoke
  (columns 3, 4, 5, unit vectors in the rows 0, 1, 2) and a fourth row with nonzeros in the rim
  columns 0 and 1; \<open>wheel3SpokesTranspose\<close> is its transpose.
\<close>

definition wheel3Spokes :: CMR_CHRMAT where
  "wheel3Spokes = \<lparr>numRows = 4, numColumns = 6, rowSlice = [0, 3, 6, 9, 11],
     entryColumns = [0, 1, 3, 0, 2, 4, 1, 2, 5, 0, 1]\<rparr>"

definition wheel3SpokesTranspose :: CMR_CHRMAT where
  "wheel3SpokesTranspose = \<lparr>numRows = 6, numColumns = 4, rowSlice = [0, 3, 6, 8, 9, 10, 11],
     entryColumns = [0, 1, 3, 0, 2, 3, 1, 2, 0, 1, 2]\<rparr>"

text \<open>The graph state \<^verbatim>\<open>createWheel\<close> builds for the leading 3-by-3 block: hub 0, the rows are
  the spokes, the columns the rim.\<close>

definition wheel3SpokesWheel :: graphic_state where
  "wheel3SpokesWheel = \<lparr>stGraph = \<lparr>graphNumNodes = 4,
       graphEdges = [Some (1, 2), Some (0, 2), Some (2, 3), Some (0, 3), Some (3, 1), Some (0, 1)],
       graphFreeEdges = []\<rparr>,
     stRowEdges = [Some 1, Some 5, Some 3, None],
     stColumnEdges = [Some 0, Some 2, Some 4, None, None, None]\<rparr>"

text \<open>The graph state after the three one-column steps: every spoke has a parallel column-edge,
  so the hub has 6 incident edges in a graph of 4 nodes.\<close>

definition wheel3Doubled :: graphic_state where
  "wheel3Doubled = \<lparr>stGraph = \<lparr>graphNumNodes = 4,
       graphEdges = [Some (1, 2), Some (0, 2), Some (2, 3), Some (0, 3), Some (3, 1), Some (0, 1),
         Some (0, 2), Some (0, 1), Some (0, 3)],
       graphFreeEdges = []\<rparr>,
     stRowEdges = [Some 1, Some 5, Some 3, None],
     stColumnEdges = [Some 0, Some 2, Some 4, Some 6, Some 7, Some 8]\<rparr>"

text \<open>
  Claim C1. The claim, that the handler reports graphic exactly when (i) the graph without the
  1-edges has an articulation point, (ii) exactly one candidate lies on the tree paths of all
  1-edges and (iii) the auxiliary graph of the components is bipartite, fails for the call on
  \<open>wheel3Doubled\<close> with the 1-edges of the columns 0 and 1, which the driver makes in the fourth
  step of the sequence on \<open>wheel3Spokes\<close>. All three conditions hold there: the hub is the only
  articulation point, it is the only candidate after both tree paths, the components \<open>{1, 3}\<close>
  and \<open>{2}\<close> give an auxiliary graph of two nodes with two parallel edges, which is bipartite.
  The handler then adds the sister node and copies the 6 incident edges of the hub into the
  array \<^verbatim>\<open>incidentEdges\<close> of 5 entries, one per node: the sixth write is past the end of the
  array, and the call does not report graphic.
\<close>

theorem addToGraph1Row_writes_past_incidentEdges:
  "createWheel \<lparr>stGraph = CMRgraphCreateEmpty, stRowEdges = replicate (numRows wheel3Spokes) None,
       stColumnEdges = replicate (numColumns wheel3Spokes) None\<rparr> wheel3Spokes wheel3SpokesTranspose 3
     = Some (Inr wheel3SpokesWheel)
   \<and> extensionLoop (\<lambda>x. x) (\<lambda>i. (\<lambda>v. False, \<lambda>v. None)) wheel3Spokes wheel3SpokesTranspose
       (createHashVector (\<lambda>x. x) 6) 4 [3, 3, 3, 3, 4] [3, 4, 5, 6, 6] 1
       (\<lparr>seqGraphic = wheel3SpokesWheel, rowHashValues = [4, 10, 12, 0],
          columnHashValues = [4, 10, 12, 0, 0, 0]\<rparr>, 0)
     = Inr (\<lparr>seqGraphic = wheel3Doubled, rowHashValues = [31, 91, 255, 0],
          columnHashValues = [4, 10, 12, 1, 3, 9]\<rparr>, 3)
   \<and> nonzerosInPrefix wheel3Spokes 3 6 = [0, 1]
   \<and> findArticulationPoints (stGraph wheel3Doubled) (stColumnEdges wheel3Doubled) [0, 1]
     = Inr [1, 0, 0, 0]
   \<and> findTreeParents (\<lambda>v. False) (\<lambda>v. None) (stGraph wheel3Doubled) (stRowEdges wheel3Doubled) 3
     = Inr [None, Some 0, Some 0, Some 0]
   \<and> addToGraph1Row_paths (stGraph wheel3Doubled) (stColumnEdges wheel3Doubled)
       [None, Some 0, Some 0, Some 0] 3 [0, 1] 0 ([1, 0, 0, 0], 1, None)
     = Inr ([3, 0, 0, 0], 1, Some 0)
   \<and> findComponents (stGraph wheel3Doubled) (stColumnEdges wheel3Doubled) 0 [0, 1]
     = Inr ([None, Some 0, Some 1, Some 0], 2)
   \<and> addAuxiliaryNodes 2 CMRgraphCreateEmpty []
     = (\<lparr>graphNumNodes = 2, graphEdges = [], graphFreeEdges = []\<rparr>, [0, 1])
   \<and> addAuxiliaryEdges (stGraph wheel3Doubled) (stColumnEdges wheel3Doubled)
       [None, Some 0, Some 1, Some 0] [0, 1] [0, 1]
       \<lparr>graphNumNodes = 2, graphEdges = [], graphFreeEdges = []\<rparr>
     = Inr \<lparr>graphNumNodes = 2, graphEdges = [Some (0, 1), Some (1, 0)], graphFreeEdges = []\<rparr>
   \<and> findBipartition \<lparr>graphNumNodes = 2, graphEdges = [Some (0, 1), Some (1, 0)], graphFreeEdges = []\<rparr>
     = Inr (True, [0, 1])
   \<and> graphNumNodes (fst (CMRgraphAddNode (stGraph wheel3Doubled))) = 5
   \<and> map fst (CMRgraphInc (fst (CMRgraphAddNode (stGraph wheel3Doubled))) 0) = [1, 3, 5, 6, 7, 8]
   \<and> addToGraph1Row (\<lambda>v. False) (\<lambda>v. None) wheel3Doubled 3 6 [0, 1] = Inl InvalidAccess
   \<and> CMRregularSequenceGraphic (\<lambda>x. x) (\<lambda>i. (\<lambda>v. False, \<lambda>v. None)) wheel3Spokes
       wheel3SpokesTranspose 5 [3, 3, 3, 3, 4] [3, 4, 5, 6, 6] = Some (Inl InvalidAccess)"
  by code_simp

end
